theory Spec2Isabelle
  imports Main "HOL-Library.AList" "HOL-Library.Sublist"
    "HOL-Library.Char_ord" "HOL-Library.List_Lexorder"
begin

section \<open>The window-ID cache of screenshot-mcp\<close>

text \<open>
  The development follows the version of \<^verbatim>\<open>index.ts\<close> that has the \<^verbatim>\<open>WindowCache\<close> class; the
  line numbers quoted are those of \<^verbatim>\<open>src/unnamed/part_002\<close>, the file that holds it. Strings
  are lists of code units, restricted to the code units below 256; a JavaScript \<^verbatim>\<open>number\<close>
  that holds a window ID or a time stamp is an \<^typ>\<open>int\<close>, and \<^verbatim>\<open>NaN\<close> and \<^verbatim>\<open>null\<close> are
  \<^term>\<open>None\<close>.
\<close>

subsection \<open>String built-ins used by the server\<close>

text \<open>\<^verbatim>\<open>s.includes(sub)\<close>: \<open>sub\<close> occurs in \<open>s\<close> as a contiguous block.\<close>

fun includes_str :: "'a list \<Rightarrow> 'a list \<Rightarrow> bool" where
  "includes_str [] sub = (sub = [])"
| "includes_str (x # xs) sub = (prefix sub (x # xs) \<or> includes_str xs sub)"

text \<open>\<^verbatim>\<open>s.endsWith(sub)\<close>.\<close>

definition endsWith :: "'a list \<Rightarrow> 'a list \<Rightarrow> bool" where
  "endsWith s sub = suffix sub s"

text \<open>
  \<^verbatim>\<open>s.split(sep)\<close> for a string separator: the text is cut at every occurrence of \<open>sep\<close>,
  found from left to right without overlap; the empty separator cuts between all code units.
\<close>

function split_at :: "'a list \<Rightarrow> 'a list \<Rightarrow> 'a list list" where
  "split_at [] sep = [[]]"
| "split_at (x # xs) sep =
     (if sep \<noteq> [] \<and> prefix sep (x # xs) then [] # split_at (drop (length sep) (x # xs)) sep
      else (case split_at xs sep of
              [] \<Rightarrow> [[x]]
            | p # ps \<Rightarrow> (x # p) # ps))"
  by pat_completeness auto
termination
  by (relation "measure (\<lambda>(s, sep). length s)") (auto simp: Suc_diff_le)

definition split :: "'a list \<Rightarrow> 'a list \<Rightarrow> 'a list list" where
  "split s sep = (if sep = [] then map (\<lambda>c. [c]) s else split_at s sep)"

text \<open>
  White space of \<^verbatim>\<open>trim\<close> and \<^verbatim>\<open>parseInt\<close> among the code units below 256: TAB, LF, VT, FF, CR,
  SPACE and NBSP.
\<close>

definition isWhiteSpace :: "char \<Rightarrow> bool" where
  "isWhiteSpace c = (of_char c \<in> {9, 10, 11, 12, 13, 32, 160 :: nat})"

definition trim :: "string \<Rightarrow> string" where
  "trim s = rev (dropWhile isWhiteSpace (rev (dropWhile isWhiteSpace s)))"

text \<open>
  \<^verbatim>\<open>toLowerCase\<close> on code units below 256: the letters A to Z and the accented capitals
  U+00C0 to U+00DE (the multiplication sign U+00D7 apart) move up by 32.
\<close>

definition toLowerCase_unit :: "char \<Rightarrow> char" where
  "toLowerCase_unit c =
     (let n = (of_char c :: nat) in
      if (65 \<le> n \<and> n \<le> 90) \<or> (192 \<le> n \<and> n \<le> 222 \<and> n \<noteq> 215) then char_of (n + 32) else c)"

definition toLowerCase :: "string \<Rightarrow> string" where
  "toLowerCase s = map toLowerCase_unit s"

text \<open>
  \<^verbatim>\<open>parseInt(s)\<close> with no radix: leading white space and one sign are skipped, a prefix
  \<^verbatim>\<open>0x\<close> or \<^verbatim>\<open>0X\<close> selects radix 16, and the longest run of digits that follows is the value;
  with no digit the result is \<^verbatim>\<open>NaN\<close>, here \<^term>\<open>None\<close>. The rounding of integers beyond
  \<open>2^53\<close> to a double is left out.
\<close>

definition digitValue :: "char \<Rightarrow> nat option" where
  "digitValue c =
     (let n = (of_char c :: nat) in
      if 48 \<le> n \<and> n \<le> 57 then Some (n - 48)
      else if 97 \<le> n \<and> n \<le> 102 then Some (n - 87)
      else if 65 \<le> n \<and> n \<le> 70 then Some (n - 55)
      else None)"

definition isDigitOf :: "nat \<Rightarrow> char \<Rightarrow> bool" where
  "isDigitOf radix c = (case digitValue c of None \<Rightarrow> False | Some d \<Rightarrow> d < radix)"

definition digitsValue :: "nat \<Rightarrow> string \<Rightarrow> nat" where
  "digitsValue radix ds = foldl (\<lambda>acc c. acc * radix + (case digitValue c of None \<Rightarrow> 0 | Some d \<Rightarrow> d)) 0 ds"

definition parseInt :: "string \<Rightarrow> int option" where
  "parseInt s =
     (let s1 = dropWhile isWhiteSpace s;
          negative = (s1 \<noteq> [] \<and> hd s1 = CHR ''-'');
          s2 = (if s1 \<noteq> [] \<and> (hd s1 = CHR ''-'' \<or> hd s1 = CHR ''+'') then tl s1 else s1);
          hex = (prefix ''0x'' s2 \<or> prefix ''0X'' s2);
          radix = (if hex then 16 else 10);
          s3 = (if hex then drop 2 s2 else s2);
          z = takeWhile (isDigitOf radix) s3
      in if z = [] then None
         else Some ((if negative then - 1 else 1) * int (digitsValue radix z)))"

text \<open>
  \<^verbatim>\<open>String(n)\<close> for a natural number and for an integer, all digits written out; the
  exponent form that JavaScript prints from \<open>10^21\<close> on is left out.
\<close>

fun digitsOf :: "nat \<Rightarrow> string" where
  "digitsOf n = (if n < 10 then [char_of (48 + n)] else digitsOf (n div 10) @ [char_of (48 + n mod 10)])"

declare digitsOf.simps [simp del]

definition numberToString :: "int \<Rightarrow> string" where
  "numberToString i = (if i < 0 then CHR ''-'' # digitsOf (nat (- i)) else digitsOf (nat i))"

subsection \<open>JavaScript \<^verbatim>\<open>Map\<close>: an association list in insertion order\<close>

text \<open>
  A \<^verbatim>\<open>Map\<close> iterates in insertion order, \<^verbatim>\<open>set\<close> on a present key keeps the key's position,
  and no key occurs twice. The list of pairs carries the order; \<open>Map_ok\<close> is the
  no-duplicate-key invariant that every \<^verbatim>\<open>Map\<close> satisfies.
\<close>

type_synonym ('k, 'v) jsmap = "('k \<times> 'v) list"

definition Map_ok :: "('k, 'v) jsmap \<Rightarrow> bool" where
  "Map_ok m = distinct (map fst m)"

definition Map_get :: "('k, 'v) jsmap \<Rightarrow> 'k \<Rightarrow> 'v option" where
  "Map_get m k = map_of m k"

definition Map_has :: "('k, 'v) jsmap \<Rightarrow> 'k \<Rightarrow> bool" where
  "Map_has m k = (map_of m k \<noteq> None)"

definition Map_set :: "('k, 'v) jsmap \<Rightarrow> 'k \<Rightarrow> 'v \<Rightarrow> ('k, 'v) jsmap" where
  "Map_set m k v = AList.update k v m"

definition Map_delete :: "('k, 'v) jsmap \<Rightarrow> 'k \<Rightarrow> ('k, 'v) jsmap" where
  "Map_delete m k = AList.delete k m"

definition Map_size :: "('k, 'v) jsmap \<Rightarrow> nat" where
  "Map_size m = length m"

definition Map_values :: "('k, 'v) jsmap \<Rightarrow> 'v list" where
  "Map_values m = map snd m"

subsection \<open>\<^verbatim>\<open>interface WindowInfo\<close>, \<^verbatim>\<open>interface CachedWindow\<close>\<close>

record WindowInfo =
  windowId :: int
  appName :: string
  windowTitle :: string

record CachedWindow = WindowInfo +
  timestamp :: int

subsection \<open>\<^verbatim>\<open>class WindowCache\<close>\<close>

text \<open>
  The private field \<^verbatim>\<open>cache\<close> is the state of the object; every method takes it and, when it
  mutates it, returns the new one. \<^verbatim>\<open>Date.now()\<close> is the argument \<open>now\<close> (milliseconds).
\<close>

type_synonym WindowCache = "(string, CachedWindow) jsmap"

definition CACHE_TTL :: int where
  "CACHE_TTL = 30000"

definition getCacheKey :: "string \<Rightarrow> string \<Rightarrow> string" where
  "getCacheKey a t = a @ ''|||'' @ t"

definition WindowCache_get :: "WindowCache \<Rightarrow> string \<Rightarrow> string \<Rightarrow> int \<Rightarrow> int option \<times> WindowCache" where
  "WindowCache_get c a t now =
     (let key = getCacheKey a t in
      case Map_get c key of
        None \<Rightarrow> (None, c)
      | Some cached \<Rightarrow>
          if now - timestamp cached > CACHE_TTL then (None, Map_delete c key)
          else (Some (windowId cached), c))"

definition WindowCache_set :: "WindowCache \<Rightarrow> string \<Rightarrow> string \<Rightarrow> int \<Rightarrow> int \<Rightarrow> WindowCache" where
  "WindowCache_set c a t wid now =
     (let key = getCacheKey a t in
      Map_set c key \<lparr>windowId = wid, appName = a, windowTitle = t, timestamp = now\<rparr>)"

definition WindowCache_clear :: "WindowCache \<Rightarrow> WindowCache" where
  "WindowCache_clear c = []"

record CacheStats =
  stats_size :: nat
  stats_entries :: "CachedWindow list"

definition WindowCache_getStats :: "WindowCache \<Rightarrow> CacheStats" where
  "WindowCache_getStats c = \<lparr>stats_size = Map_size c, stats_entries = Map_values c\<rparr>"

subsection \<open>\<^verbatim>\<open>interface ApplicationWindows\<close>\<close>

text \<open>
  The field names \<^verbatim>\<open>appName\<close>, \<^verbatim>\<open>windowId\<close> and \<^verbatim>\<open>windowTitle\<close> are taken by \<open>WindowInfo\<close>;
  the fields of a group carry the prefix \<open>app_\<close> and those of its window objects \<open>win_\<close>.
\<close>

record WindowEntry =
  win_windowId :: int
  win_windowTitle :: string

record ApplicationWindows =
  app_appName :: string
  app_windows :: "WindowEntry list"

subsection \<open>The world outside the process\<close>

text \<open>
  A \<^verbatim>\<open>try\<close> block, and an awaited promise, either throws a message or returns a value.
\<close>

datatype 'a result = Throws string | Returns 'a

text \<open>
  Everything the server asks of the operating system is a field of \<open>env\<close>. The first
  argument of an oracle is the number of earlier requests of the same kind (commands run,
  clock readings, file-system calls), so that the same request may be answered differently
  each time. \<open>localeCompare\<close> and \<open>path_join\<close> are the runtime's
  \<^verbatim>\<open>String.prototype.localeCompare\<close> and \<^verbatim>\<open>path.join\<close>; \<open>formatTimestamp\<close> is the
  text that \<^verbatim>\<open>formatTimestamp()\<close> makes of the clock reading.
\<close>

record env =
  Date_now :: "nat \<Rightarrow> int"
  formatTimestamp :: "nat \<Rightarrow> string"
  execAsync :: "nat \<Rightarrow> string \<Rightarrow> string result"
  writeFile :: "nat \<Rightarrow> string \<Rightarrow> unit result"
  unlink :: "nat \<Rightarrow> string \<Rightarrow> unit result"
  mkdir :: "nat \<Rightarrow> string \<Rightarrow> unit result"
  existsSync :: "nat \<Rightarrow> string \<Rightarrow> bool"
  readFileAsBase64 :: "nat \<Rightarrow> string \<Rightarrow> string result"
  tmpdir :: string
  cwd :: string
  path_join :: "string \<Rightarrow> string \<Rightarrow> string"
  localeCompare :: "string \<Rightarrow> string \<Rightarrow> int"

text \<open>
  The state of the process: the global \<^verbatim>\<open>windowCache\<close>, the commands handed to
  \<^verbatim>\<open>execAsync\<close> so far (oldest first), and the counts of clock readings and file-system calls.
\<close>

record world =
  cache :: WindowCache
  commands :: "string list"
  clock_reads :: nat
  fs_calls :: nat

definition exec :: "env \<Rightarrow> world \<Rightarrow> string \<Rightarrow> string result \<times> world" where
  "exec env st command =
     (execAsync env (length (commands st)) command, st\<lparr>commands := commands st @ [command]\<rparr>)"

definition fs_step :: "world \<Rightarrow> world" where
  "fs_step st = st\<lparr>fs_calls := Suc (fs_calls st)\<rparr>"

text \<open>
  \<^verbatim>\<open>windowCache.get\<close> and \<^verbatim>\<open>windowCache.set\<close> on the global cache. \<^verbatim>\<open>set\<close> takes the next clock
  reading; \<^verbatim>\<open>get\<close> takes it when the key is present, and returns before \<^verbatim>\<open>Date.now()\<close> is
  called when it is not.
\<close>

definition cache_get :: "env \<Rightarrow> world \<Rightarrow> string \<Rightarrow> string \<Rightarrow> int option \<times> world" where
  "cache_get env st a t =
     (case Map_get (cache st) (getCacheKey a t) of
        None \<Rightarrow> (None, st)
      | Some cached \<Rightarrow>
          (let (r, c) = WindowCache_get (cache st) a t (Date_now env (clock_reads st))
           in (r, st\<lparr>cache := c, clock_reads := Suc (clock_reads st)\<rparr>)))"

definition cache_set :: "env \<Rightarrow> world \<Rightarrow> string \<Rightarrow> string \<Rightarrow> int \<Rightarrow> world" where
  "cache_set env st a t wid =
     st\<lparr>cache := WindowCache_set (cache st) a t wid (Date_now env (clock_reads st)),
        clock_reads := Suc (clock_reads st)\<rparr>"

text \<open>\<^verbatim>\<open>x || 0\<close> for \<open>x\<close> a number or \<^verbatim>\<open>null\<close>.\<close>

definition orZero :: "int option \<Rightarrow> int" where
  "orZero r = (case r of None \<Rightarrow> 0 | Some w \<Rightarrow> w)"

definition dq :: string where
  "dq = [CHR 0x22]"

text \<open>The command line \<^verbatim>\<open>GetWindowID "${appName}" "${windowTitle}"\<close>.\<close>

definition GetWindowID_command :: "string \<Rightarrow> string \<Rightarrow> string" where
  "GetWindowID_command a t = ''GetWindowID '' @ dq @ a @ dq @ '' '' @ dq @ t @ dq"

text \<open>
  Both AppleScript queries run the same way: the script is written to a file of the temporary
  directory, \<^verbatim>\<open>osascript\<close> runs it, the file is removed. The text of the script is not
  modelled; what it prints is the oracle's answer.
\<close>

definition runAppleScript :: "env \<Rightarrow> world \<Rightarrow> string \<Rightarrow> string result \<times> world" where
  "runAppleScript env st fileName =
     (let tmpFile = path_join env (tmpdir env) fileName in
      case writeFile env (fs_calls st) tmpFile of
        Throws e \<Rightarrow> (Throws e, fs_step st)
      | Returns _ \<Rightarrow>
          (case exec env (fs_step st) (''osascript '' @ tmpFile) of
             (Throws e, st1) \<Rightarrow> (Throws e, st1)
           | (Returns stdout, st1) \<Rightarrow>
               (case unlink env (fs_calls st1) tmpFile of
                  Throws e \<Rightarrow> (Throws e, fs_step st1)
                | Returns _ \<Rightarrow> (Returns stdout, fs_step st1))))"

subsection \<open>\<^verbatim>\<open>getFirstWindowIdForApp\<close>\<close>

definition getFirstWindowIdForApp :: "env \<Rightarrow> world \<Rightarrow> string \<Rightarrow> int \<times> world" where
  "getFirstWindowIdForApp env st app =
     (let cacheStats = WindowCache_getStats (cache st) in
      case find (\<lambda>entry. toLowerCase (appName entry) = toLowerCase app) (stats_entries cacheStats) of
        Some cachedWindow \<Rightarrow> (windowId cachedWindow, st)
      | None \<Rightarrow>
          (case runAppleScript env st ''getFirstWindow.scpt'' of
             (Throws e, st1) \<Rightarrow> (0, st1)
           | (Returns stdout, st1) \<Rightarrow>
               (let title = trim stdout in
                if title = ''NOT_FOUND'' \<or> title = [] then (0, st1)
                else
                  (case exec env st1 (GetWindowID_command app title) of
                     (Throws e, st2) \<Rightarrow> (0, st2)
                   | (Returns windowIdStr, st2) \<Rightarrow>
                       (case parseInt (trim windowIdStr) of
                          Some wid \<Rightarrow> (wid, cache_set env st2 app title wid)
                        | None \<Rightarrow> (0, st2))))))"

subsection \<open>\<^verbatim>\<open>getWindowList\<close>\<close>

text \<open>
  Lines 533 to 557 of the loop body: the value of \<^verbatim>\<open>windowId\<close> when line 559 is reached,
  \<^term>\<open>None\<close> when it is \<^verbatim>\<open>NaN\<close> or when the \<^verbatim>\<open>catch\<close> branch ran \<^verbatim>\<open>continue\<close>.
\<close>

definition lookupWindowId :: "env \<Rightarrow> bool \<Rightarrow> world \<Rightarrow> string \<Rightarrow> string \<Rightarrow> int option \<times> world" where
  "lookupWindowId env forceRefresh st a t =
     (let (wid0, st1) =
            (if \<not> forceRefresh then (let (r, s) = cache_get env st a t in (orZero r, s))
             else (0, st))
      in if wid0 = 0 then
           (case exec env st1 (GetWindowID_command a t) of
              (Throws e, st2) \<Rightarrow> (None, st2)
            | (Returns windowIdStr, st2) \<Rightarrow>
                (case parseInt (trim windowIdStr) of
                   Some wid \<Rightarrow> (Some wid, cache_set env st2 a t wid)
                 | None \<Rightarrow> (None, st2)))
         else (Some wid0, st1))"

text \<open>One round of the \<^verbatim>\<open>for\<close> loop over \<^verbatim>\<open>windowStrings\<close>.\<close>

definition windowStep :: "env \<Rightarrow> bool \<Rightarrow> WindowInfo list \<times> world \<Rightarrow> string \<Rightarrow> WindowInfo list \<times> world" where
  "windowStep env forceRefresh acc windowString =
     (let (windows, st) = acc; parts = split windowString ''|||'' in
      if length parts = 2 then
        (let a = parts ! 0; t = parts ! 1;
             (r, st1) = lookupWindowId env forceRefresh st a t
         in case r of
              None \<Rightarrow> (windows, st1)
            | Some wid \<Rightarrow>
                if wid > 0 then (windows @ [\<lparr>windowId = wid, appName = a, windowTitle = t\<rparr>], st1)
                else (windows, st1))
      else (windows, st))"

definition getWindowList :: "env \<Rightarrow> world \<Rightarrow> bool \<Rightarrow> WindowInfo list \<times> world" where
  "getWindowList env st forceRefresh =
     (case runAppleScript env st ''getWindows.scpt'' of
        (Throws e, st1) \<Rightarrow> ([], st1)
      | (Returns stdout, st1) \<Rightarrow>
          if trim stdout = [] then ([], st1)
          else foldl (windowStep env forceRefresh) ([], st1) (split (trim stdout) '', ''))"

subsection \<open>\<^verbatim>\<open>getApplicationWindowsList\<close>\<close>

text \<open>One round of the grouping loop: the group of the application is made when missing, and
  the window is pushed onto it.\<close>

definition groupStep :: "(string, ApplicationWindows) jsmap \<Rightarrow> WindowInfo \<Rightarrow> (string, ApplicationWindows) jsmap" where
  "groupStep appMap window =
     (let appMap1 =
            (if \<not> Map_has appMap (appName window)
             then Map_set appMap (appName window) \<lparr>app_appName = appName window, app_windows = []\<rparr>
             else appMap)
      in case Map_get appMap1 (appName window) of
           None \<Rightarrow> appMap1
         | Some g \<Rightarrow>
             Map_set appMap1 (appName window)
               (g\<lparr>app_windows := app_windows g @
                     [\<lparr>win_windowId = windowId window, win_windowTitle = windowTitle window\<rparr>]\<rparr>))"

text \<open>
  \<^verbatim>\<open>Array.prototype.sort\<close> with a comparison function. The sort is stable, and for a
  consistent comparison function its result does not depend on the algorithm; the model
  inserts from the right, before the first element that does not compare smaller.
\<close>

fun insertBy :: "('a \<Rightarrow> 'a \<Rightarrow> int) \<Rightarrow> 'a \<Rightarrow> 'a list \<Rightarrow> 'a list" where
  "insertBy cmp x [] = [x]"
| "insertBy cmp x (y # ys) = (if cmp x y \<le> 0 then x # y # ys else y # insertBy cmp x ys)"

definition Array_sort :: "('a \<Rightarrow> 'a \<Rightarrow> int) \<Rightarrow> 'a list \<Rightarrow> 'a list" where
  "Array_sort cmp xs = foldr (insertBy cmp) xs []"

definition getApplicationWindowsList :: "env \<Rightarrow> world \<Rightarrow> bool \<Rightarrow> ApplicationWindows list \<times> world" where
  "getApplicationWindowsList env st forceRefresh =
     (let (windows, st1) = getWindowList env st forceRefresh;
          appMap = foldl groupStep [] windows
      in (Array_sort (\<lambda>a b. localeCompare env (app_appName a) (app_appName b)) (Map_values appMap), st1))"

subsection \<open>The request handlers\<close>

datatype content = Text string | Image string string

text \<open>The \<^verbatim>\<open>clear_cache\<close> tool: the statistics are read, then the cache is cleared.\<close>

definition clear_cache :: "world \<Rightarrow> content list \<times> world" where
  "clear_cache st =
     (let stats = WindowCache_getStats (cache st);
          st1 = st\<lparr>cache := WindowCache_clear (cache st)\<rparr>
      in ([Text (''Cache cleared. Previously contained '' @ digitsOf (stats_size stats) @ '' entries.'')],
          st1))"

text \<open>
  The arguments of \<^verbatim>\<open>take_screenshot\<close>; an absent argument is \<^term>\<open>None\<close>, and an empty
  string is as falsy as an absent one.
\<close>

record ScreenshotArgs =
  arg_filename :: "string option"
  arg_appName :: "string option"
  arg_windowName :: "string option"
  arg_includeWindowShadow :: "bool option"

definition truthy :: "string option \<Rightarrow> bool" where
  "truthy x = (case x of None \<Rightarrow> False | Some s \<Rightarrow> s \<noteq> [])"

text \<open>
  The branch of \<^verbatim>\<open>take_screenshot\<close> for a request that names a window (lines 315 to 332):
  the cache first, \<^verbatim>\<open>GetWindowID\<close> on a miss; every failure of the latter is rethrown with
  one message.
\<close>

definition couldNotFindWindow :: "string \<Rightarrow> string \<Rightarrow> string" where
  "couldNotFindWindow app name =
     ''Could not find window '' @ dq @ name @ dq @ '' in application '' @ dq @ app @ dq
       @ ''. Use list_windows to see available windows.''"

definition resolveNamedWindow :: "env \<Rightarrow> world \<Rightarrow> string \<Rightarrow> string \<Rightarrow> int result \<times> world" where
  "resolveNamedWindow env st app name =
     (let (r, st1) = cache_get env st app name; wid0 = orZero r in
      if wid0 = 0 then
        (case exec env st1 (GetWindowID_command app name) of
           (Throws e, st2) \<Rightarrow> (Throws (couldNotFindWindow app name), st2)
         | (Returns windowIdStr, st2) \<Rightarrow>
             (case parseInt (trim windowIdStr) of
                None \<Rightarrow> (Throws (couldNotFindWindow app name), st2)
              | Some wid \<Rightarrow> (Returns wid, cache_set env st2 app name wid)))
      else (Returns wid0, st1))"

definition noWindowsFound :: "string \<Rightarrow> string" where
  "noWindowsFound app =
     ''No windows found for application '' @ dq @ app @ dq
       @ ''. Use list_windows to see available applications.''"

text \<open>Lines 311 to 346: the \<^verbatim>\<open>screencapture\<close> command line for the request.\<close>

definition captureCommand :: "env \<Rightarrow> world \<Rightarrow> ScreenshotArgs \<Rightarrow> string \<Rightarrow> string result \<times> world" where
  "captureCommand env st args screenshotPath =
     (if truthy (arg_appName args) then
        (let app = the (arg_appName args);
             (found, st1) =
               (if truthy (arg_windowName args)
                then resolveNamedWindow env st app (the (arg_windowName args))
                else (let (wid, s) = getFirstWindowIdForApp env st app
                      in if wid = 0 then (Throws (noWindowsFound app), s) else (Returns wid, s)))
         in case found of
              Throws e \<Rightarrow> (Throws e, st1)
            | Returns wid \<Rightarrow>
                (let shadowFlag = (if arg_includeWindowShadow args \<noteq> Some False then [] else ''-o'')
                 in (Returns (''screencapture -x '' @ shadowFlag @ '' -l '' @ numberToString wid
                               @ '' '' @ dq @ screenshotPath @ dq), st1)))
      else (Returns (''screencapture -x '' @ dq @ screenshotPath @ dq), st))"

definition errorTakingScreenshot :: "string \<Rightarrow> content list" where
  "errorTakingScreenshot message = [Text (''Error taking screenshot: '' @ message)]"

text \<open>Lines 348 to 375: the capture, the check that the file is there, the answer.\<close>

definition captureAndRespond :: "env \<Rightarrow> world \<Rightarrow> ScreenshotArgs \<Rightarrow> string \<Rightarrow> string \<Rightarrow> content list \<times> world" where
  "captureAndRespond env st args command screenshotPath =
     (case exec env st command of
        (Throws e, st1) \<Rightarrow> (errorTakingScreenshot e, st1)
      | (Returns _, st1) \<Rightarrow>
          if \<not> existsSync env (fs_calls st1) screenshotPath
          then ([Text ''Screenshot failed to save.''], fs_step st1)
          else
            (let appInfo =
                   (if truthy (arg_appName args)
                    then '' of '' @ the (arg_appName args)
                           @ (if truthy (arg_windowName args)
                              then '' ('' @ the (arg_windowName args) @ '')'' else [])
                    else [])
             in case readFileAsBase64 env (Suc (fs_calls st1)) screenshotPath of
                  Throws e \<Rightarrow> (errorTakingScreenshot e, fs_step (fs_step st1))
                | Returns data \<Rightarrow>
                    ([Text (''Screenshot'' @ appInfo @ '' saved to: '' @ screenshotPath),
                      Image data ''image/png''],
                     fs_step (fs_step st1))))"

text \<open>The file name of the request, by default \<^verbatim>\<open>screenshot_\<close> and the time stamp.\<close>

definition chooseFilename :: "env \<Rightarrow> world \<Rightarrow> ScreenshotArgs \<Rightarrow> string \<times> world" where
  "chooseFilename env st args =
     (if truthy (arg_filename args) then (the (arg_filename args), st)
      else (''screenshot_'' @ formatTimestamp env (clock_reads st),
            st\<lparr>clock_reads := Suc (clock_reads st)\<rparr>))"

definition screenshotsDir :: "env \<Rightarrow> string" where
  "screenshotsDir env = path_join env (cwd env) ''screenshots''"

definition screenshotPathOf :: "env \<Rightarrow> world \<Rightarrow> ScreenshotArgs \<Rightarrow> string" where
  "screenshotPathOf env st args =
     path_join env (screenshotsDir env) (fst (chooseFilename env st args) @ ''.png'')"

definition take_screenshot :: "env \<Rightarrow> world \<Rightarrow> ScreenshotArgs \<Rightarrow> content list \<times> world" where
  "take_screenshot env st args =
     (let (filename, st0) = chooseFilename env st args;
          (made, st1) =
            (if \<not> existsSync env (fs_calls st0) (screenshotsDir env)
             then (mkdir env (Suc (fs_calls st0)) (screenshotsDir env), fs_step (fs_step st0))
             else (Returns (), fs_step st0))
      in case made of
           Throws e \<Rightarrow> (errorTakingScreenshot e, st1)
         | Returns _ \<Rightarrow>
             (let screenshotPath = path_join env (screenshotsDir env) (filename @ ''.png'') in
              case captureCommand env st1 args screenshotPath of
                (Throws e, st2) \<Rightarrow> (errorTakingScreenshot e, st2)
              | (Returns command, st2) \<Rightarrow> captureAndRespond env st2 args command screenshotPath))"

subsection \<open>Vocabulary for the listing\<close>

text \<open>
  Names for what the loop of \<^verbatim>\<open>getWindowList\<close> works on. \<open>windowStrings\<close> is the array of the
  same name (empty when the script fails or prints nothing) and \<open>afterScript\<close> the world once
  the script has run. An element is an enumerated pair when it has \<open>twoFields\<close>; \<open>pairOf\<close>
  gives its application name and window title, \<open>keyOf\<close> its cache key, \<open>commandOf\<close> its
  \<^verbatim>\<open>GetWindowID\<close> command line. \<open>stateBefore \<dots> j\<close> is the world when the loop reaches the
  \<open>j\<close>-th pair.

  The handle of a pair is described here from the cache and the oracle, not from the
  code of the loop. \<open>freshHandle env k p\<close> is the number that \<^verbatim>\<open>GetWindowID\<close> yields for the
  pair \<open>p\<close> as the \<open>k\<close>-th command, \<^term>\<open>None\<close> when the command fails or prints no number.
  \<open>cachedHandle env st p\<close> is the window ID of the cache entry of \<open>p\<close> in \<open>st\<close>, when there
  is one, it has not expired at the next clock reading and its ID is not 0.
  \<open>resolvedHandle\<close> is the cached handle when the refresh is not forced and there is one, and
  otherwise the fresh handle of the next command. \<open>handleAbove0\<close> says that the resolved handle
  is a number above 0, and \<open>windowOf\<close> is the listing's object for the pair with that handle.
\<close>

definition twoFields :: "string \<Rightarrow> bool" where
  "twoFields s = (length (split s ''|||'') = 2)"

definition pairOf :: "string \<Rightarrow> string \<times> string" where
  "pairOf s = (split s ''|||'' ! 0, split s ''|||'' ! 1)"

definition windowStrings :: "env \<Rightarrow> world \<Rightarrow> string list" where
  "windowStrings env st =
     (case runAppleScript env st ''getWindows.scpt'' of
        (Throws e, st1) \<Rightarrow> []
      | (Returns stdout, st1) \<Rightarrow> if trim stdout = [] then [] else split (trim stdout) '', '')"

definition afterScript :: "env \<Rightarrow> world \<Rightarrow> world" where
  "afterScript env st = snd (runAppleScript env st ''getWindows.scpt'')"

definition freshHandle :: "env \<Rightarrow> nat \<Rightarrow> string \<times> string \<Rightarrow> int option" where
  "freshHandle env k p =
     (case execAsync env k (GetWindowID_command (fst p) (snd p)) of
        Throws e \<Rightarrow> None
      | Returns windowIdStr \<Rightarrow> parseInt (trim windowIdStr))"

definition cachedHandle :: "env \<Rightarrow> world \<Rightarrow> string \<times> string \<Rightarrow> int option" where
  "cachedHandle env st p =
     (case Map_get (cache st) (getCacheKey (fst p) (snd p)) of
        None \<Rightarrow> None
      | Some e \<Rightarrow>
          if Date_now env (clock_reads st) - timestamp e > CACHE_TTL \<or> windowId e = 0 then None
          else Some (windowId e))"

definition resolvedHandle :: "env \<Rightarrow> bool \<Rightarrow> world \<Rightarrow> string \<times> string \<Rightarrow> int option" where
  "resolvedHandle env forceRefresh st p =
     (if forceRefresh then freshHandle env (length (commands st)) p
      else (case cachedHandle env st p of
              Some h \<Rightarrow> Some h
            | None \<Rightarrow> freshHandle env (length (commands st)) p))"

definition handleAbove0 :: "env \<Rightarrow> bool \<Rightarrow> world \<Rightarrow> string \<Rightarrow> bool" where
  "handleAbove0 env forceRefresh st s =
     (case resolvedHandle env forceRefresh st (pairOf s) of None \<Rightarrow> False | Some wid \<Rightarrow> wid > 0)"

definition windowOf :: "env \<Rightarrow> bool \<Rightarrow> world \<Rightarrow> string \<Rightarrow> WindowInfo" where
  "windowOf env forceRefresh st s =
     \<lparr>windowId = orZero (resolvedHandle env forceRefresh st (pairOf s)),
      appName = fst (pairOf s), windowTitle = snd (pairOf s)\<rparr>"

definition stateBefore :: "env \<Rightarrow> bool \<Rightarrow> world \<Rightarrow> string list \<Rightarrow> nat \<Rightarrow> world" where
  "stateBefore env forceRefresh st strs j = snd (foldl (windowStep env forceRefresh) ([], st) (take j strs))"

definition entryOf :: "WindowInfo \<Rightarrow> WindowEntry" where
  "entryOf w = \<lparr>win_windowId = windowId w, win_windowTitle = windowTitle w\<rparr>"

definition enumerated :: "env \<Rightarrow> world \<Rightarrow> string list" where
  "enumerated env st = filter twoFields (windowStrings env st)"

definition commandOf :: "string \<Rightarrow> string" where
  "commandOf s = GetWindowID_command (fst (pairOf s)) (snd (pairOf s))"

definition keyOf :: "string \<Rightarrow> string" where
  "keyOf s = getCacheKey (fst (pairOf s)) (snd (pairOf s))"

text \<open>
  \<open>freshWindows env n strs\<close> lists, in order, the pairs of \<open>strs\<close> for which \<^verbatim>\<open>GetWindowID\<close>
  yields a number above 0 when the command for the \<open>j\<close>-th pair is the \<open>(n + j)\<close>-th command
  run, each pair with that number.
\<close>

definition freshWindows :: "env \<Rightarrow> nat \<Rightarrow> string list \<Rightarrow> WindowInfo list" where
  "freshWindows env n strs =
     map (\<lambda>j. \<lparr>windowId = orZero (freshHandle env (n + j) (pairOf (strs ! j))),
               appName = fst (pairOf (strs ! j)), windowTitle = snd (pairOf (strs ! j))\<rparr>)
       (filter (\<lambda>j. case freshHandle env (n + j) (pairOf (strs ! j)) of None \<Rightarrow> False | Some h \<Rightarrow> h > 0)
          [0..<length strs])"

subsection \<open>Test doubles\<close>

text \<open>
  A comparison by code units stands in for \<^verbatim>\<open>localeCompare\<close> in the examples. In
  \<open>quiet_env\<close> every command fails, no file exists and the clock stands at 0; the other
  environments change one oracle each.
\<close>

definition compareUnits :: "string \<Rightarrow> string \<Rightarrow> int" where
  "compareUnits a b = (if a < b then - 1 else if a = b then 0 else 1)"

definition quiet_env :: env where
  "quiet_env =
     \<lparr>Date_now = (\<lambda>n. 0), formatTimestamp = (\<lambda>n. ''2025-01-01_00-00-00''),
      execAsync = (\<lambda>n command. Throws ''Command failed''),
      writeFile = (\<lambda>n path. Returns ()), unlink = (\<lambda>n path. Returns ()),
      mkdir = (\<lambda>n path. Returns ()), existsSync = (\<lambda>n path. False),
      readFileAsBase64 = (\<lambda>n path. Throws ''ENOENT''),
      tmpdir = ''/tmp'', cwd = ''/work'', path_join = (\<lambda>a b. a @ ''/'' @ b),
      localeCompare = compareUnits\<rparr>"

definition world0 :: world where
  "world0 = \<lparr>cache = [], commands = [], clock_reads = 0, fs_calls = 0\<rparr>"

definition zero_env :: env where
  "zero_env = quiet_env\<lparr>execAsync := (\<lambda>n command. Returns ''0'')\<rparr>"

definition late_env :: env where
  "late_env = quiet_env\<lparr>Date_now := (\<lambda>n. 100000)\<rparr>"

definition silent_env :: env where
  "silent_env = quiet_env\<lparr>execAsync := (\<lambda>n command. Returns [])\<rparr>"

definition figma_world :: world where
  "figma_world =
     \<lparr>cache = WindowCache_set [] ''Figma'' ''Design A'' 10 0, commands = [], clock_reads = 1, fs_calls = 0\<rparr>"

definition no_args :: ScreenshotArgs where
  "no_args = \<lparr>arg_filename = None, arg_appName = None, arg_windowName = None, arg_includeWindowShadow = None\<rparr>"

definition messy_env :: env where
  "messy_env = quiet_env\<lparr>execAsync := (\<lambda>n command.
       if prefix ''osascript'' command
       then Returns ''Figma|||Design A, junk, A|||B|||C, Notes|||Hello, World''
       else Returns ''10'')\<rparr>"

definition refresh_env :: env where
  "refresh_env = quiet_env\<lparr>execAsync := (\<lambda>n command.
       if prefix ''osascript'' command then Returns ''Figma|||Design A'' else Returns ''77'')\<rparr>"

definition desk_env :: env where
  "desk_env = quiet_env\<lparr>execAsync := (\<lambda>n command.
       if prefix ''osascript'' command
       then Returns ''Mail|||Inbox, Figma|||Design A, Ghost|||Gone, Figma|||Design B''
       else if command = GetWindowID_command ''Figma'' ''Design A'' then Returns ''10''
       else if command = GetWindowID_command ''Figma'' ''Design B'' then Returns ''11''
       else if command = GetWindowID_command ''Mail'' ''Inbox'' then Returns ''12''
       else Throws ''Command failed'')\<rparr>"

definition minus_env :: env where
  "minus_env = quiet_env\<lparr>execAsync := (\<lambda>n command.
       if prefix ''osascript'' command then Returns ''Figma|||Design A, Mail|||Inbox''
       else if command = GetWindowID_command ''Figma'' ''Design A'' then Returns ''10''
       else if command = GetWindowID_command ''Mail'' ''Inbox'' then Returns ''-5''
       else Throws ''Command failed'')\<rparr>"

section \<open>Properties of the \<^verbatim>\<open>Map\<close> model\<close>

lemma Map_ok_empty: "Map_ok []"
  by (simp add: Map_ok_def)

lemma Map_ok_set: "Map_ok m \<Longrightarrow> Map_ok (Map_set m k v)"
  by (simp add: Map_ok_def Map_set_def distinct_update)

lemma Map_ok_delete: "Map_ok m \<Longrightarrow> Map_ok (Map_delete m k)"
  by (simp add: Map_ok_def Map_delete_def distinct_delete)

lemma Map_get_set: "Map_get (Map_set m k v) k' = (if k' = k then Some v else Map_get m k')"
  by (simp add: Map_get_def Map_set_def update_conv')

lemma Map_get_delete: "Map_get (Map_delete m k) k' = (if k' = k then None else Map_get m k')"
  by (simp add: Map_get_def Map_delete_def delete_conv')

lemma length_delete_distinct:
  "distinct (map fst m) \<Longrightarrow> map_of m k = Some v \<Longrightarrow> Suc (length (AList.delete k m)) = length m"
proof (induction m)
  case Nil
  then show ?case by simp
next
  case (Cons p m)
  show ?case
  proof (cases "fst p = k")
    case True
    with Cons.prems have "k \<notin> fst ` set m" by auto
    then have "AList.delete k m = m"
      by (induction m) auto
    with True show ?thesis by (cases p) simp
  next
    case False
    with Cons show ?thesis by (cases p) auto
  qed
qed

lemma Map_size_delete:
  "Map_ok m \<Longrightarrow> Map_get m k = Some v \<Longrightarrow> Suc (Map_size (Map_delete m k)) = Map_size m"
  by (simp add: Map_ok_def Map_get_def Map_size_def Map_delete_def length_delete_distinct)

lemma WindowCache_set_ok: "Map_ok c \<Longrightarrow> Map_ok (WindowCache_set c a t wid now)"
  by (simp add: WindowCache_set_def Map_ok_set)

lemma WindowCache_get_ok: "Map_ok c \<Longrightarrow> Map_ok (snd (WindowCache_get c a t now))"
  by (simp add: WindowCache_get_def Let_def Map_ok_delete split: option.splits)

lemma fst_WindowCache_get:
  "fst (WindowCache_get c a t now) =
     (case Map_get c (getCacheKey a t) of
        None \<Rightarrow> None
      | Some e \<Rightarrow> if now - timestamp e > CACHE_TTL then None else Some (windowId e))"
  by (simp add: WindowCache_get_def Let_def split: option.splits)

lemma WindowCache_get_expired:
  "Map_get c (getCacheKey a t) = Some e \<Longrightarrow> now - timestamp e > CACHE_TTL
     \<Longrightarrow> fst (WindowCache_get c a t now) = None"
  by (simp add: fst_WindowCache_get)

subsection \<open>When two cache keys are equal\<close>

lemma includes_str_iff: "includes_str s sub \<longleftrightarrow> (\<exists>p q. s = p @ sub @ q)"
proof (induction s)
  case Nil then show ?case by auto
next
  case (Cons x xs)
  show ?case
  proof
    assume "includes_str (x # xs) sub"
    then consider "prefix sub (x # xs)" | "includes_str xs sub" by auto
    then show "\<exists>p q. x # xs = p @ sub @ q"
    proof cases
      case 1 then obtain q where "x # xs = sub @ q" by (auto simp: prefix_def)
      then have "x # xs = [] @ sub @ q" by simp
      then show ?thesis by blast
    next
      case 2 with Cons.IH obtain p q where "xs = p @ sub @ q" by blast
      then have "x # xs = (x # p) @ sub @ q" by simp
      then show ?thesis by blast
    qed
  next
    assume "\<exists>p q. x # xs = p @ sub @ q"
    then obtain p q where e: "x # xs = p @ sub @ q" by blast
    show "includes_str (x # xs) sub"
    proof (cases p)
      case Nil with e have "prefix sub (x # xs)" by (simp add: prefix_def)
      then show ?thesis by simp
    next
      case (Cons y p') with e have "xs = p' @ sub @ q" by simp
      with Cons.IH show ?thesis by auto
    qed
  qed
qed

lemma getCacheKey_inject:
  assumes "getCacheKey a t = getCacheKey a' t'"
    and "\<not> includes_str a ''|||''" and "\<not> includes_str a' ''|||''"
    and "\<not> endsWith a ''|''" and "\<not> endsWith a' ''|''"
  shows "a = a' \<and> t = t'"
proof -
  from assms(1) have "a @ ''|||'' @ t = a' @ ''|||'' @ t'" by (simp add: getCacheKey_def)
  then obtain u where "(a = a' @ u \<and> u @ ''|||'' @ t = ''|||'' @ t') \<or> (a @ u = a' \<and> ''|||'' @ t = u @ ''|||'' @ t')"
    by (auto simp: append_eq_append_conv2)
  then show ?thesis
  proof
    assume h: "a = a' @ u \<and> u @ ''|||'' @ t = ''|||'' @ t'"
    show ?thesis
    proof (cases u)
      case Nil with h show ?thesis by simp
    next
      case (Cons c1 u1)
      note c1 = Cons
      show ?thesis
      proof (cases u1)
        case Nil with c1 h assms(4) show ?thesis by (auto simp: endsWith_def suffix_def)
      next
        case (Cons c2 u2)
        note c2 = Cons
        show ?thesis
        proof (cases u2)
          case Nil with c1 c2 h assms(4) show ?thesis by (auto simp: endsWith_def suffix_def)
        next
          case (Cons c3 u3)
          with c1 c2 h have "a = a' @ ''|||'' @ u3" by auto
          with assms(2) show ?thesis by (auto simp: includes_str_iff)
        qed
      qed
    qed
  next
    assume h: "a @ u = a' \<and> ''|||'' @ t = u @ ''|||'' @ t'"
    show ?thesis
    proof (cases u)
      case Nil with h show ?thesis by simp
    next
      case (Cons c1 u1)
      note c1 = Cons
      show ?thesis
      proof (cases u1)
        case Nil with c1 h assms(5) show ?thesis by (auto simp: endsWith_def suffix_def)
      next
        case (Cons c2 u2)
        note c2 = Cons
        show ?thesis
        proof (cases u2)
          case Nil with c1 c2 h assms(5) show ?thesis by (auto simp: endsWith_def suffix_def)
        next
          case (Cons c3 u3)
          with c1 c2 h have "a' = a @ ''|||'' @ u3" by auto
          with assms(3) show ?thesis by (auto simp: includes_str_iff)
        qed
      qed
    qed
  qed
qed

section \<open>Cache expiry\<close>

text \<open>
  Claim C3. After \<^verbatim>\<open>set(a, b, h)\<close> at time \<open>now\<close>, a \<^verbatim>\<open>get(a, b)\<close> at a time more than
  \<open>CACHE_TTL\<close> later returns \<^verbatim>\<open>null\<close>, the entry of the key is gone from the map, and the
  map holds exactly one entry fewer than before the \<^verbatim>\<open>get\<close>.
\<close>

theorem get_after_ttl_evicts:
  assumes "Map_ok c" and "now' - now > CACHE_TTL"
  shows "fst (WindowCache_get (WindowCache_set c a b h now) a b now') = None
       \<and> Map_get (snd (WindowCache_get (WindowCache_set c a b h now) a b now')) (getCacheKey a b) = None
       \<and> Suc (stats_size (WindowCache_getStats (snd (WindowCache_get (WindowCache_set c a b h now) a b now'))))
           = stats_size (WindowCache_getStats (WindowCache_set c a b h now))"
proof -
  let ?e = "\<lparr>windowId = h, appName = a, windowTitle = b, timestamp = now\<rparr>"
  let ?c1 = "WindowCache_set c a b h now"
  have ok: "Map_ok ?c1"
    using assms(1) by (rule WindowCache_set_ok)
  have hit: "Map_get ?c1 (getCacheKey a b) = Some ?e"
    by (simp add: WindowCache_set_def Map_get_set)
  have res: "WindowCache_get ?c1 a b now' = (None, Map_delete ?c1 (getCacheKey a b))"
    using assms(2) hit by (simp add: WindowCache_get_def)
  show ?thesis
    using Map_size_delete [OF ok hit]
    by (simp add: res Map_get_delete WindowCache_getStats_def)
qed

theorem get_after_ttl_evicts_witness:
  "fst (WindowCache_get (WindowCache_set [] ''Figma'' ''Design A'' 10 1000) ''Figma'' ''Design A'' 31001) = None
   \<and> stats_size (WindowCache_getStats
        (snd (WindowCache_get (WindowCache_set [] ''Figma'' ''Design A'' 10 1000) ''Figma'' ''Design A'' 31001))) = 0
   \<and> stats_size (WindowCache_getStats (WindowCache_set [] ''Figma'' ''Design A'' 10 1000)) = 1"
proof -
  have a: "Map_ok ([] :: WindowCache)" by (rule Map_ok_empty)
  have b: "(31001::int) - 1000 > CACHE_TTL" by (simp add: CACHE_TTL_def)
  have c: "stats_size (WindowCache_getStats (WindowCache_set [] ''Figma'' ''Design A'' 10 1000)) = 1"
    by (simp add: WindowCache_getStats_def WindowCache_set_def Map_set_def Map_size_def)
  show ?thesis
    using get_after_ttl_evicts [OF a b, of "''Figma''" "''Design A''" 10] c by simp
qed

section \<open>Clearing the cache\<close>

text \<open>
  Claim C4. The cache-clearing operation, the \<^verbatim>\<open>clear_cache\<close> tool, leaves the cache without
  any entry (its statistics show size 0 and every later \<^verbatim>\<open>get\<close> misses), and the number it
  reports is the number of entries it removed: the size before minus the size after.
  \<^verbatim>\<open>WindowCache.clear\<close> itself returns nothing; the count is read through \<^verbatim>\<open>getStats\<close>
  just before.
\<close>

theorem clear_cache_empties_and_counts:
  "cache (snd (clear_cache st)) = []
   \<and> WindowCache_getStats (cache (snd (clear_cache st))) = \<lparr>stats_size = 0, stats_entries = []\<rparr>
   \<and> fst (WindowCache_get (cache (snd (clear_cache st))) a t now) = None
   \<and> fst (clear_cache st) =
       [Text (''Cache cleared. Previously contained ''
              @ digitsOf (Map_size (cache st) - Map_size (cache (snd (clear_cache st)))) @ '' entries.'')]"
  by (simp add: clear_cache_def WindowCache_clear_def WindowCache_getStats_def Map_size_def Map_values_def
      WindowCache_get_def Map_get_def Let_def)

theorem clear_cache_empties_and_counts_witness:
  "clear_cache (figma_world\<lparr>cache := WindowCache_set (cache figma_world) ''Mail'' ''Inbox'' 12 5\<rparr>) =
     ([Text ''Cache cleared. Previously contained 2 entries.''],
      \<lparr>cache = [], commands = [], clock_reads = 1, fs_calls = 0\<rparr>)"
proof -
  let ?st = "figma_world\<lparr>cache := WindowCache_set (cache figma_world) ''Mail'' ''Inbox'' 12 5\<rparr>"
  have n: "Map_size (cache ?st) = 2"
    by code_simp
  have d: "digitsOf 2 = ''2''"
    by code_simp
  have r: "snd (clear_cache ?st) = \<lparr>cache = [], commands = [], clock_reads = 1, fs_calls = 0\<rparr>"
    by code_simp
  note c = clear_cache_empties_and_counts [of ?st "''Mail''" "''Inbox''" 6]
  have e: "Map_size (cache (snd (clear_cache ?st))) = 0"
    using c [THEN conjunct1] by (simp add: Map_size_def)
  have "fst (clear_cache ?st) = [Text ''Cache cleared. Previously contained 2 entries.'']"
    using c [THEN conjunct2, THEN conjunct2, THEN conjunct2] unfolding e n by (simp add: d)
  with r show ?thesis by (simp add: prod_eq_iff)
qed

section \<open>Independence of cache keys\<close>

text \<open>
  Claim C9, as amended. A \<^verbatim>\<open>set\<close> for one pair leaves the result of \<^verbatim>\<open>get\<close> for a different pair
  unchanged, provided neither application name nor window title contains \<^verbatim>\<open>|||\<close> and
  neither application name ends with \<^verbatim>\<open>|\<close>. Pairs that contain the delimiter can share a
  key, as \<^verbatim>\<open>("a|||b", "c")\<close> and \<^verbatim>\<open>("a", "b|||c")\<close> do, and then the later \<^verbatim>\<open>set\<close> replaces the
  entry of the earlier.
\<close>

theorem store_independent:
  assumes "(a, t) \<noteq> (a', t')"
    and "\<not> includes_str a ''|||''" and "\<not> includes_str t ''|||''"
    and "\<not> includes_str a' ''|||''" and "\<not> includes_str t' ''|||''"
    and "\<not> endsWith a ''|''" and "\<not> endsWith a' ''|''"
  shows "fst (WindowCache_get (WindowCache_set c a t h now) a' t' now') = fst (WindowCache_get c a' t' now')
       \<and> getCacheKey ''a|||b'' ''c'' = getCacheKey ''a'' ''b|||c''
       \<and> fst (WindowCache_get (WindowCache_set (WindowCache_set c ''a|||b'' ''c'' h1 now) ''a'' ''b|||c'' h2 now)
                ''a|||b'' ''c'' now) = Some h2"
proof -
  have ne: "getCacheKey a' t' \<noteq> getCacheKey a t"
    using getCacheKey_inject [of a' t' a t] assms by auto
  have 1: "fst (WindowCache_get (WindowCache_set c a t h now) a' t' now') = fst (WindowCache_get c a' t' now')"
    using ne by (simp add: fst_WindowCache_get WindowCache_set_def Map_get_set)
  have 2: "getCacheKey ''a|||b'' ''c'' = getCacheKey ''a'' ''b|||c''"
    by (simp add: getCacheKey_def)
  have 3: "fst (WindowCache_get (WindowCache_set (WindowCache_set c ''a|||b'' ''c'' h1 now) ''a'' ''b|||c'' h2 now)
                ''a|||b'' ''c'' now) = Some h2"
    by (simp add: fst_WindowCache_get WindowCache_set_def Map_get_set 2 CACHE_TTL_def)
  from 1 2 3 show ?thesis by blast
qed

theorem store_independent_witness:
  "fst (WindowCache_get (WindowCache_set (WindowCache_set [] ''App'' ''Win1'' 1 0) ''App'' ''Win2'' 2 0) ''App'' ''Win1'' 5)
     = Some 1"
proof -
  have a: "(''App'', ''Win2'') \<noteq> (''App'', ''Win1'')" by simp
  have b: "\<not> includes_str ''App'' ''|||''" "\<not> includes_str ''Win1'' ''|||''" "\<not> includes_str ''Win2'' ''|||''"
    by simp_all
  have c: "\<not> endsWith ''App'' ''|''" by (simp add: endsWith_def suffix_def)
  have d: "fst (WindowCache_get (WindowCache_set [] ''App'' ''Win1'' 1 0) ''App'' ''Win1'' 5) = Some 1"
    by (simp add: fst_WindowCache_get WindowCache_set_def Map_get_set CACHE_TTL_def)
  show ?thesis
    using store_independent [OF a b(1) b(3) b(1) b(2) c c, of "WindowCache_set [] ''App'' ''Win1'' 1 0" 2 0 5] d
    by simp
qed

text \<open>
  The proviso of the claim as first stated, that no name or title contains \<^verbatim>\<open>|||\<close>, is not
  enough: \<^verbatim>\<open>("x|", "y")\<close> and \<^verbatim>\<open>("x", "|y")\<close> are different pairs free of the delimiter, and
  the \<^verbatim>\<open>set\<close> for the second changes what \<^verbatim>\<open>get\<close> returns for the first.
\<close>

theorem store_collision_counterexample:
  "(''x|'', ''y'') \<noteq> (''x'', ''|y'')
   \<and> \<not> includes_str ''x|'' ''|||'' \<and> \<not> includes_str ''y'' ''|||''
   \<and> \<not> includes_str ''x'' ''|||'' \<and> \<not> includes_str ''|y'' ''|||''
   \<and> fst (WindowCache_get (WindowCache_set [] ''x|'' ''y'' 1 0) ''x|'' ''y'' 0) = Some 1
   \<and> fst (WindowCache_get (WindowCache_set (WindowCache_set [] ''x|'' ''y'' 1 0) ''x'' ''|y'' 2 0) ''x|'' ''y'' 0) = Some 2"
  by (simp add: fst_WindowCache_get WindowCache_set_def Map_get_set CACHE_TTL_def getCacheKey_def)

section \<open>Resolving a named window\<close>

text \<open>
  Claim C2, as amended. When the cache holds an entry for the pair that has not expired at
  the clock reading of the lookup and whose window ID is not 0, the named-window branch of
  \<^verbatim>\<open>take_screenshot\<close> returns that window ID and runs no command at all, so \<^verbatim>\<open>GetWindowID\<close> is
  not called.
\<close>

theorem resolveNamedWindow_hit:
  assumes "Map_get (cache st) (getCacheKey app name) = Some e"
    and "Date_now env (clock_reads st) - timestamp e \<le> CACHE_TTL"
    and "windowId e \<noteq> 0"
  shows "fst (resolveNamedWindow env st app name) = Returns (windowId e)
       \<and> commands (snd (resolveNamedWindow env st app name)) = commands st"
  using assms
  by (simp add: resolveNamedWindow_def cache_get_def WindowCache_get_def orZero_def Let_def)

theorem resolveNamedWindow_hit_witness:
  "fst (resolveNamedWindow quiet_env figma_world ''Figma'' ''Design A'') = Returns 10
   \<and> commands (snd (resolveNamedWindow quiet_env figma_world ''Figma'' ''Design A'')) = []"
proof -
  let ?e = "\<lparr>windowId = 10, appName = ''Figma'', windowTitle = ''Design A'', timestamp = 0\<rparr>"
  have a: "Map_get (cache figma_world) (getCacheKey ''Figma'' ''Design A'') = Some ?e"
    by (simp add: figma_world_def WindowCache_set_def Map_get_set)
  have b: "Date_now quiet_env (clock_reads figma_world) - timestamp ?e \<le> CACHE_TTL"
    by (simp add: quiet_env_def CACHE_TTL_def)
  have c: "windowId ?e \<noteq> 0" by simp
  show ?thesis
    using resolveNamedWindow_hit [OF a b c] by (simp add: figma_world_def)
qed

text \<open>
  A cached window ID 0 is not used. With a \<^verbatim>\<open>GetWindowID\<close> that prints \<^verbatim>\<open>0\<close>, the first
  request caches 0 for the pair; the second request, made while that entry is fresh, calls
  \<^verbatim>\<open>GetWindowID\<close> again.
\<close>

theorem resolveNamedWindow_zero_counterexample:
  "Map_get (cache (snd (resolveNamedWindow zero_env world0 ''App'' ''Win''))) (getCacheKey ''App'' ''Win'')
     = Some \<lparr>windowId = 0, appName = ''App'', windowTitle = ''Win'', timestamp = 0\<rparr>
   \<and> Date_now zero_env (clock_reads (snd (resolveNamedWindow zero_env world0 ''App'' ''Win''))) - 0 \<le> CACHE_TTL
   \<and> commands (snd (resolveNamedWindow zero_env world0 ''App'' ''Win'')) = [GetWindowID_command ''App'' ''Win'']
   \<and> commands (snd (resolveNamedWindow zero_env (snd (resolveNamedWindow zero_env world0 ''App'' ''Win'')) ''App'' ''Win''))
     = [GetWindowID_command ''App'' ''Win'', GetWindowID_command ''App'' ''Win'']"
  by code_simp

section \<open>The first window of an application\<close>

text \<open>
  Claim C7. When some cache entry has an application name equal to the requested one up to
  letter case, \<^verbatim>\<open>getFirstWindowIdForApp\<close> changes nothing in the world (no command runs, no
  script is written, so nothing is enumerated) and returns the window ID of such an entry:
  of the given entry when it is the only match, of the first match in insertion order
  otherwise.
\<close>

theorem getFirstWindowIdForApp_hit:
  assumes "e \<in> set (Map_values (cache st))" and "toLowerCase (appName e) = toLowerCase app"
  shows "snd (getFirstWindowIdForApp env st app) = st
       \<and> (\<exists>e' \<in> set (Map_values (cache st)).
             toLowerCase (appName e') = toLowerCase app \<and> fst (getFirstWindowIdForApp env st app) = windowId e')
       \<and> ((\<forall>e' \<in> set (Map_values (cache st)). toLowerCase (appName e') = toLowerCase app \<longrightarrow> e' = e)
            \<longrightarrow> fst (getFirstWindowIdForApp env st app) = windowId e)"
proof -
  let ?P = "\<lambda>entry :: CachedWindow. toLowerCase (appName entry) = toLowerCase app"
  from assms have "find ?P (Map_values (cache st)) \<noteq> None"
    by (auto simp: find_None_iff)
  then obtain e' where f: "find ?P (Map_values (cache st)) = Some e'" by auto
  then have m: "e' \<in> set (Map_values (cache st))" "?P e'"
    by (auto simp: find_Some_iff)
  have r: "getFirstWindowIdForApp env st app = (windowId e', st)"
    using f by (simp add: getFirstWindowIdForApp_def WindowCache_getStats_def)
  show ?thesis using m by (auto simp: r)
qed

theorem getFirstWindowIdForApp_hit_witness:
  "getFirstWindowIdForApp quiet_env figma_world ''figma'' = (10, figma_world)"
proof -
  let ?e = "\<lparr>windowId = 10, appName = ''Figma'', windowTitle = ''Design A'', timestamp = 0\<rparr>"
  have v: "Map_values (cache figma_world) = [?e]"
    by (simp add: figma_world_def WindowCache_set_def Map_set_def Map_values_def)
  have a: "?e \<in> set (Map_values (cache figma_world))" by (simp add: v)
  have b: "toLowerCase (appName ?e) = toLowerCase ''figma''" by code_simp
  have c: "\<forall>e' \<in> set (Map_values (cache figma_world)). toLowerCase (appName e') = toLowerCase ''figma'' \<longrightarrow> e' = ?e"
    by (simp add: v)
  from getFirstWindowIdForApp_hit [OF a b, of quiet_env] c
  have "snd (getFirstWindowIdForApp quiet_env figma_world ''figma'') = figma_world"
    and "fst (getFirstWindowIdForApp quiet_env figma_world ''figma'') = 10"
    by simp_all
  then show ?thesis by (simp add: prod_eq_iff)
qed

text \<open>
  Claim C1 at its failing input. The entry for \<^verbatim>\<open>("Figma", "Design A")\<close> was stored at time 0
  and the clock reads 100000, so the entry is older than \<open>CACHE_TTL\<close>:
  \<^verbatim>\<open>windowCache.get\<close> treats it as absent, but the scan of \<^verbatim>\<open>getStats().entries\<close> in
  \<^verbatim>\<open>getFirstWindowIdForApp\<close> checks no time stamp and returns its window ID 10.
\<close>

theorem fast_path_returns_expired_handle:
  "Map_get (cache figma_world) (getCacheKey ''Figma'' ''Design A'')
     = Some \<lparr>windowId = 10, appName = ''Figma'', windowTitle = ''Design A'', timestamp = 0\<rparr>
   \<and> Date_now late_env (clock_reads figma_world) - 0 > CACHE_TTL
   \<and> fst (cache_get late_env figma_world ''Figma'' ''Design A'') = None
   \<and> fst (getFirstWindowIdForApp late_env figma_world ''figma'') = 10"
  by code_simp

section \<open>Capture without a file\<close>

lemma captureAndRespond_no_file:
  assumes "\<not> existsSync env (fs_calls st) path"
  shows "fst (captureAndRespond env st args command path) =
           (case execAsync env (length (commands st)) command of
              Throws e \<Rightarrow> errorTakingScreenshot e
            | Returns out \<Rightarrow> [Text ''Screenshot failed to save.''])"
  using assms by (simp add: captureAndRespond_def exec_def split: result.splits)

text \<open>
  Claim C8. When the capture command has returned and no file exists at the destination
  path at the check that follows, the answer is the text \<^verbatim>\<open>Screenshot failed to save.\<close>, also
  though the command reported no error; when the command threw, the answer is the error
  text. So for every request whose destination path holds no file, the answer of
  \<^verbatim>\<open>take_screenshot\<close> is one of these two texts and never the success answer with the image.
\<close>

theorem capture_reports_missing_file:
  "(\<not> existsSync env (fs_calls st2) path \<longrightarrow>
      fst (captureAndRespond env st2 args command path) =
        (case execAsync env (length (commands st2)) command of
           Throws e \<Rightarrow> errorTakingScreenshot e
         | Returns out \<Rightarrow> [Text ''Screenshot failed to save.'']))
   \<and> ((\<forall>n. \<not> existsSync env n (screenshotPathOf env st args)) \<longrightarrow>
        fst (take_screenshot env st args) = [Text ''Screenshot failed to save.'']
        \<or> (\<exists>e. fst (take_screenshot env st args) = errorTakingScreenshot e))"
proof (intro conjI impI)
  assume "\<not> existsSync env (fs_calls st2) path"
  then show "fst (captureAndRespond env st2 args command path) =
        (case execAsync env (length (commands st2)) command of
           Throws e \<Rightarrow> errorTakingScreenshot e
         | Returns out \<Rightarrow> [Text ''Screenshot failed to save.''])"
    by (rule captureAndRespond_no_file)
next
  assume nofile: "\<forall>n. \<not> existsSync env n (screenshotPathOf env st args)"
  let ?p = "screenshotPathOf env st args"
  have tail: "fst (captureAndRespond env s args c ?p) = [Text ''Screenshot failed to save.'']
              \<or> (\<exists>e. fst (captureAndRespond env s args c ?p) = errorTakingScreenshot e)"
    for s c
    using nofile captureAndRespond_no_file [of env s ?p args c]
    by (cases "execAsync env (length (commands s)) c") auto
  obtain f st0 where cf: "chooseFilename env st args = (f, st0)"
    by (cases "chooseFilename env st args")
  have p: "path_join env (screenshotsDir env) (f @ ''.png'') = ?p"
    by (simp add: screenshotPathOf_def cf)
  have cont: "fst (case captureCommand env st1 args ?p of
                     (Throws e, s) \<Rightarrow> (errorTakingScreenshot e, s)
                   | (Returns c, s) \<Rightarrow> captureAndRespond env s args c ?p)
                = [Text ''Screenshot failed to save.'']
              \<or> (\<exists>e. fst (case captureCommand env st1 args ?p of
                     (Throws e, s) \<Rightarrow> (errorTakingScreenshot e, s)
                   | (Returns c, s) \<Rightarrow> captureAndRespond env s args c ?p)
                = errorTakingScreenshot e)" for st1
  proof (cases "captureCommand env st1 args ?p")
    case (Pair r s)
    then show ?thesis using tail [of s] by (cases r) auto
  qed
  show "fst (take_screenshot env st args) = [Text ''Screenshot failed to save.'']
          \<or> (\<exists>e. fst (take_screenshot env st args) = errorTakingScreenshot e)"
  proof (cases "existsSync env (fs_calls st0) (screenshotsDir env)")
    case True
    then have "take_screenshot env st args =
                 (case captureCommand env (fs_step st0) args ?p of
                     (Throws e, s) \<Rightarrow> (errorTakingScreenshot e, s)
                   | (Returns c, s) \<Rightarrow> captureAndRespond env s args c ?p)"
      by (simp add: take_screenshot_def cf p Let_def)
    then show ?thesis using cont [of "fs_step st0"] by simp
  next
    case False
    show ?thesis
    proof (cases "mkdir env (Suc (fs_calls st0)) (screenshotsDir env)")
      case (Throws e)
      with False have "fst (take_screenshot env st args) = errorTakingScreenshot e"
        by (simp add: take_screenshot_def cf)
      then show ?thesis by blast
    next
      case (Returns u)
      with False have "take_screenshot env st args =
                 (case captureCommand env (fs_step (fs_step st0)) args ?p of
                     (Throws e, s) \<Rightarrow> (errorTakingScreenshot e, s)
                   | (Returns c, s) \<Rightarrow> captureAndRespond env s args c ?p)"
        by (simp add: take_screenshot_def cf p Let_def)
      then show ?thesis using cont [of "fs_step (fs_step st0)"] by simp
    qed
  qed
qed

theorem capture_reports_missing_file_witness:
  "execAsync silent_env 0 ''screencapture -x /work/screenshots/shot.png'' = Returns []
   \<and> fst (captureAndRespond silent_env world0 no_args ''screencapture -x /work/screenshots/shot.png''
             ''/work/screenshots/shot.png'') = [Text ''Screenshot failed to save.'']
   \<and> fst (take_screenshot silent_env world0 no_args) = [Text ''Screenshot failed to save.'']"
proof -
  have a: "\<forall>n. \<not> existsSync silent_env n (screenshotPathOf silent_env world0 no_args)"
    by (simp add: silent_env_def quiet_env_def)
  have b: "execAsync silent_env (length (commands world0)) ''screencapture -x /work/screenshots/shot.png'' = Returns []"
    by (simp add: silent_env_def quiet_env_def)
  have c: "\<not> existsSync silent_env (fs_calls world0) ''/work/screenshots/shot.png''"
    by (simp add: silent_env_def quiet_env_def)
  have v: "fst (take_screenshot silent_env world0 no_args) = [Text ''Screenshot failed to save.'']"
    by code_simp
  have d: "\<forall>e. fst (take_screenshot silent_env world0 no_args) \<noteq> errorTakingScreenshot e"
    by (simp add: v errorTakingScreenshot_def)
  note t = capture_reports_missing_file [of silent_env world0 "''/work/screenshots/shot.png''" no_args
      "''screencapture -x /work/screenshots/shot.png''" world0]
  from t [THEN conjunct1] b c
  have "fst (captureAndRespond silent_env world0 no_args ''screencapture -x /work/screenshots/shot.png''
             ''/work/screenshots/shot.png'') = [Text ''Screenshot failed to save.'']"
    by simp
  moreover from t [THEN conjunct2] a d
  have "fst (take_screenshot silent_env world0 no_args) = [Text ''Screenshot failed to save.'']"
    by blast
  ultimately show ?thesis using b by (simp add: world0_def)
qed

section \<open>Splitting strings\<close>

lemma split_at_not_Nil: "split_at s sep \<noteq> []"
  by (induction s sep rule: split_at.induct) (auto split: list.splits)

lemma split_at_join:
  "sep \<noteq> [] \<Longrightarrow> split_at s sep = p # ps \<Longrightarrow> s = p @ concat (map (\<lambda>q. sep @ q) ps)"
proof (induction s sep arbitrary: p ps rule: split_at.induct)
  case (1 sep)
  then show ?case by simp
next
  case (2 x xs sep)
  show ?case
  proof (cases "prefix sep (x # xs)")
    case True
    then obtain r where r: "x # xs = sep @ r" by (auto simp: prefix_def)
    then have d: "drop (length sep) (x # xs) = r" by (metis append_eq_conv_conj)
    from 2 True have sp: "p = []" "ps = split_at r sep" by (auto simp: d)
    obtain p' ps' where c: "split_at r sep = p' # ps'"
      using split_at_not_Nil [of r sep] by (cases "split_at r sep") auto
    from "2.IH"(1) [of p' ps'] True 2(3) c d have "r = p' @ concat (map (\<lambda>q. sep @ q) ps')"
      by simp
    with r sp c show ?thesis by simp
  next
    case False
    obtain p' ps' where c: "split_at xs sep = p' # ps'"
      using split_at_not_Nil [of xs sep] by (cases "split_at xs sep") auto
    from "2.IH"(2) [of p' ps'] False 2(3) c have "xs = p' @ concat (map (\<lambda>q. sep @ q) ps')"
      by simp
    moreover from 2(4) False c have "p = x # p'" "ps = ps'" by auto
    ultimately show ?thesis by simp
  qed
qed

lemma split_at_hd_prefix: "sep \<noteq> [] \<Longrightarrow> split_at s sep = p # ps \<Longrightarrow> prefix p s"
  using split_at_join [of sep s p ps] by (auto simp: prefix_def)

lemma includes_str_Nil: "includes_str s []"
  by (cases s) auto

lemma split_at_parts_free:
  "sep \<noteq> [] \<Longrightarrow> p \<in> set (split_at s sep) \<Longrightarrow> \<not> includes_str p sep"
proof (induction s sep arbitrary: p rule: split_at.induct)
  case (1 sep)
  then show ?case by simp
next
  case (2 x xs sep)
  show ?case
  proof (cases "prefix sep (x # xs)")
    case True
    with 2 show ?thesis by auto
  next
    case False
    obtain p' ps' where c: "split_at xs sep = p' # ps'"
      using split_at_not_Nil [of xs sep] by (cases "split_at xs sep") auto
    from 2(4) False c have "p = x # p' \<or> p \<in> set ps'" by auto
    then show ?thesis
    proof
      assume e: "p = x # p'"
      have "\<not> includes_str p' sep" using "2.IH"(2) [of p'] False 2(3) c by simp
      moreover have "\<not> prefix sep (x # p')"
      proof
        assume "prefix sep (x # p')"
        moreover have "prefix (x # p') (x # xs)" using split_at_hd_prefix [OF 2(3) c] by simp
        ultimately have "prefix sep (x # xs)" by (rule prefix_order.trans)
        with False show False by simp
      qed
      ultimately show ?thesis using e by simp
    next
      assume "p \<in> set ps'"
      then show ?thesis using "2.IH"(2) [of p] False 2(3) c by simp
    qed
  qed
qed

lemma split_at_parts_within:
  "sep \<noteq> [] \<Longrightarrow> p \<in> set (split_at s sep) \<Longrightarrow> \<exists>u v. s = u @ p @ v"
proof (induction s sep arbitrary: p rule: split_at.induct)
  case (1 sep)
  then show ?case by simp
next
  case (2 x xs sep)
  show ?case
  proof (cases "prefix sep (x # xs)")
    case True
    then obtain r where r: "x # xs = sep @ r" by (auto simp: prefix_def)
    then have d: "drop (length sep) (x # xs) = r" by (metis append_eq_conv_conj)
    from 2(4) True 2(3) d have "p = [] \<or> p \<in> set (split_at r sep)" by auto
    then show ?thesis
    proof
      assume "p = []"
      then have "x # xs = [] @ p @ (x # xs)" by simp
      then show ?thesis by blast
    next
      assume "p \<in> set (split_at r sep)"
      with "2.IH"(1) [of p] True 2(3) d obtain u v where "r = u @ p @ v" by auto
      with r have "x # xs = (sep @ u) @ p @ v" by simp
      then show ?thesis by blast
    qed
  next
    case False
    obtain p' ps' where c: "split_at xs sep = p' # ps'"
      using split_at_not_Nil [of xs sep] by (cases "split_at xs sep") auto
    from 2(4) False c have "p = x # p' \<or> p \<in> set ps'" by auto
    then show ?thesis
    proof
      assume e: "p = x # p'"
      from split_at_hd_prefix [OF 2(3) c] obtain v where "xs = p' @ v" by (auto simp: prefix_def)
      with e have "x # xs = [] @ p @ v" by simp
      then show ?thesis by blast
    next
      assume "p \<in> set ps'"
      with "2.IH"(2) [of p] False 2(3) c obtain u v where "xs = u @ p @ v" by auto
      then have "x # xs = (x # u) @ p @ v" by simp
      then show ?thesis by blast
    qed
  qed
qed

lemma includes_str_within:
  assumes "includes_str p sub" and "s = u @ p @ v"
  shows "includes_str s sub"
proof -
  from assms(1) obtain a b where "p = a @ sub @ b" by (auto simp: includes_str_iff)
  with assms(2) have "s = (u @ a) @ sub @ (b @ v)" by simp
  then show ?thesis unfolding includes_str_iff by blast
qed

section \<open>The loop of \<^verbatim>\<open>getWindowList\<close>\<close>

lemma getWindowList_loop:
  "getWindowList env st fr = foldl (windowStep env fr) ([], afterScript env st) (windowStrings env st)"
  by (simp add: getWindowList_def windowStrings_def afterScript_def split: prod.splits result.splits)

lemma cache_get_fst:
  "fst (cache_get env st a t) =
     (case Map_get (cache st) (getCacheKey a t) of
        None \<Rightarrow> None
      | Some e \<Rightarrow> if Date_now env (clock_reads st) - timestamp e > CACHE_TTL then None else Some (windowId e))"
  by (simp add: cache_get_def WindowCache_get_def Let_def split: option.splits)

lemma cache_get_commands: "commands (snd (cache_get env st a t)) = commands st"
  by (simp add: cache_get_def WindowCache_get_def Let_def split: option.splits)

lemma lookupWindowId_resolved:
  "fst (lookupWindowId env fr st a t) = resolvedHandle env fr st (a, t)"
proof (cases fr)
  case True
  then show ?thesis
    by (simp add: lookupWindowId_def resolvedHandle_def freshHandle_def exec_def
        split: result.splits option.splits)
next
  case False
  obtain r s where g: "cache_get env st a t = (r, s)"
    by (cases "cache_get env st a t")
  have r: "r = (case Map_get (cache st) (getCacheKey a t) of
        None \<Rightarrow> None
      | Some e \<Rightarrow> if Date_now env (clock_reads st) - timestamp e > CACHE_TTL then None else Some (windowId e))"
    using cache_get_fst [of env st a t] g by simp
  have c: "commands s = commands st"
    using cache_get_commands [of env st a t] g by simp
  show ?thesis
  proof (cases "orZero r = 0")
    case True
    then have "cachedHandle env st (a, t) = None"
      by (auto simp: r cachedHandle_def orZero_def split: option.splits if_splits)
    with True False show ?thesis
      by (simp add: lookupWindowId_def resolvedHandle_def freshHandle_def exec_def g c
          split: result.splits option.splits)
  next
    case nz: False
    then have "cachedHandle env st (a, t) = Some (orZero r)"
      by (auto simp: r cachedHandle_def orZero_def split: option.splits if_splits)
    with nz False show ?thesis
      by (simp add: lookupWindowId_def resolvedHandle_def g)
  qed
qed

lemma windowStep_eq:
  "windowStep env fr (wins, st) s =
     (if twoFields s
      then (wins @ (if handleAbove0 env fr st s then [windowOf env fr st s] else []),
            snd (lookupWindowId env fr st (fst (pairOf s)) (snd (pairOf s))))
      else (wins, st))"
proof (cases "twoFields s")
  case False
  then show ?thesis by (simp add: windowStep_def twoFields_def)
next
  case True
  obtain r st1 where l: "lookupWindowId env fr st (fst (pairOf s)) (snd (pairOf s)) = (r, st1)"
    by (cases "lookupWindowId env fr st (fst (pairOf s)) (snd (pairOf s))")
  have r: "resolvedHandle env fr st (pairOf s) = r"
    using lookupWindowId_resolved [of env fr st "fst (pairOf s)" "snd (pairOf s)"] l by simp
  have p: "split s ''|||'' ! 0 = fst (pairOf s)" "split s ''|||'' ! Suc 0 = snd (pairOf s)"
    by (simp_all add: pairOf_def)
  from True have len: "length (split s ''|||'') = 2" by (simp add: twoFields_def)
  show ?thesis
    using True
    by (simp add: windowStep_def Let_def len p l handleAbove0_def windowOf_def r orZero_def
        split: option.splits)
qed

lemma windowStep_skip: "\<not> twoFields s \<Longrightarrow> windowStep env fr acc s = acc"
  by (cases acc) (simp add: windowStep_eq)

lemma foldl_windowStep_filter:
  "foldl (windowStep env fr) acc strs = foldl (windowStep env fr) acc (filter twoFields strs)"
  by (induction strs arbitrary: acc) (simp_all add: windowStep_skip)

lemma foldl_windowStep_fst:
  "fst (foldl (windowStep env fr) (wins, st) strs) = wins @ fst (foldl (windowStep env fr) ([], st) strs)
   \<and> snd (foldl (windowStep env fr) (wins, st) strs) = snd (foldl (windowStep env fr) ([], st) strs)"
proof (induction strs rule: rev_induct)
  case Nil
  then show ?case by simp
next
  case (snoc s strs)
  obtain w1 st1 where a: "foldl (windowStep env fr) (wins, st) strs = (w1, st1)"
    by (cases "foldl (windowStep env fr) (wins, st) strs")
  obtain w2 st2 where b: "foldl (windowStep env fr) ([], st) strs = (w2, st2)"
    by (cases "foldl (windowStep env fr) ([], st) strs")
  from snoc a b have "w1 = wins @ w2" "st1 = st2" by simp_all
  then show ?case by (simp add: a b windowStep_eq)
qed

lemma listed_characterisation:
  assumes "\<forall>s \<in> set strs. twoFields s"
  shows "fst (foldl (windowStep env fr) ([], st) strs) =
           map (\<lambda>j. windowOf env fr (stateBefore env fr st strs j) (strs ! j))
             (filter (\<lambda>j. handleAbove0 env fr (stateBefore env fr st strs j) (strs ! j)) [0..<length strs])"
  using assms
proof (induction strs rule: rev_induct)
  case Nil
  then show ?case by simp
next
  case (snoc s strs)
  let ?n = "length strs"
  obtain w1 st1 where a: "foldl (windowStep env fr) ([], st) strs = (w1, st1)"
    by (cases "foldl (windowStep env fr) ([], st) strs")
  have sb: "stateBefore env fr st (strs @ [s]) j = stateBefore env fr st strs j" if "j \<le> ?n" for j
    using that by (simp add: stateBefore_def)
  have sbn: "stateBefore env fr st strs ?n = st1"
    by (simp add: stateBefore_def a)
  have nth: "(strs @ [s]) ! j = strs ! j" if "j < ?n" for j
    using that by (simp add: nth_append)
  have f: "filter (\<lambda>j. handleAbove0 env fr (stateBefore env fr st (strs @ [s]) j) ((strs @ [s]) ! j)) [0..<?n]
         = filter (\<lambda>j. handleAbove0 env fr (stateBefore env fr st strs j) (strs ! j)) [0..<?n]"
    by (rule filter_cong) (simp_all add: sb nth)
  have m: "map (\<lambda>j. windowOf env fr (stateBefore env fr st (strs @ [s]) j) ((strs @ [s]) ! j)) js
         = map (\<lambda>j. windowOf env fr (stateBefore env fr st strs j) (strs ! j)) js"
    if "set js \<subseteq> {0..<?n}" for js
    using that by (intro map_cong) (auto simp: sb nth)
  from snoc.prems have tf: "twoFields s" and all: "\<forall>s \<in> set strs. twoFields s" by simp_all
  have ih: "w1 = map (\<lambda>j. windowOf env fr (stateBefore env fr st strs j) (strs ! j))
             (filter (\<lambda>j. handleAbove0 env fr (stateBefore env fr st strs j) (strs ! j)) [0..<?n])"
    using snoc.IH [OF all] a by simp
  have "fst (foldl (windowStep env fr) ([], st) (strs @ [s]))
          = w1 @ (if handleAbove0 env fr st1 s then [windowOf env fr st1 s] else [])"
    using tf by (simp add: a windowStep_eq)
  moreover have "map (\<lambda>j. windowOf env fr (stateBefore env fr st (strs @ [s]) j) ((strs @ [s]) ! j))
             (filter (\<lambda>j. handleAbove0 env fr (stateBefore env fr st (strs @ [s]) j) ((strs @ [s]) ! j)) [0..<?n])
          = w1"
    unfolding f ih by (rule m) auto
  moreover have "stateBefore env fr st (strs @ [s]) ?n = st1" "(strs @ [s]) ! ?n = s"
    by (simp_all add: sb sbn)
  ultimately show ?case
    by simp
qed

lemma getWindowList_enumerated:
  "getWindowList env st fr = foldl (windowStep env fr) ([], afterScript env st) (enumerated env st)"
  using foldl_windowStep_filter [of env fr "([], afterScript env st)" "windowStrings env st"]
  by (simp add: getWindowList_loop enumerated_def)

lemma pairOf_fields:
  assumes "twoFields s"
  shows "s = fst (pairOf s) @ ''|||'' @ snd (pairOf s)
       \<and> \<not> includes_str (fst (pairOf s)) ''|||'' \<and> \<not> includes_str (snd (pairOf s)) ''|||''"
proof -
  from assms have len: "length (split_at s ''|||'') = 2"
    by (simp add: twoFields_def split_def)
  then obtain a t where sp: "split_at s ''|||'' = [a, t]"
    by (cases "split_at s ''|||''"; cases "tl (split_at s ''|||'')") auto
  then have p: "pairOf s = (a, t)"
    by (simp add: pairOf_def split_def)
  have "s = a @ ''|||'' @ t"
    using split_at_join [of "''|||''" s a "[t]"] sp by simp
  moreover have "\<not> includes_str a ''|||''" "\<not> includes_str t ''|||''"
    using split_at_parts_free [of "''|||''" _ s] sp by simp_all
  ultimately show ?thesis unfolding p by simp
qed

lemma windowStrings_free: "s \<in> set (windowStrings env st) \<Longrightarrow> \<not> includes_str s '', ''"
  using split_at_parts_free [of "'', ''" s]
  by (auto simp: windowStrings_def split_def split: prod.splits result.splits if_splits)

lemma listed_from_element:
  assumes "w \<in> set (fst (foldl (windowStep env fr) ([], st) strs))"
  shows "\<exists>s \<in> set strs. twoFields s \<and> pairOf s = (appName w, windowTitle w) \<and> windowId w > 0"
proof -
  let ?strs = "filter twoFields strs"
  have "fst (foldl (windowStep env fr) ([], st) strs) =
          map (\<lambda>j. windowOf env fr (stateBefore env fr st ?strs j) (?strs ! j))
             (filter (\<lambda>j. handleAbove0 env fr (stateBefore env fr st ?strs j) (?strs ! j)) [0..<length ?strs])"
    using listed_characterisation [of ?strs env fr st] foldl_windowStep_filter [of env fr "([], st)" strs]
    by simp
  with assms obtain j where j: "j < length ?strs"
      "handleAbove0 env fr (stateBefore env fr st ?strs j) (?strs ! j)"
      "w = windowOf env fr (stateBefore env fr st ?strs j) (?strs ! j)"
    by auto
  from j(1) have "?strs ! j \<in> set ?strs" by (rule nth_mem)
  then have "?strs ! j \<in> set strs" "twoFields (?strs ! j)" by simp_all
  moreover from j(2,3) have "pairOf (?strs ! j) = (appName w, windowTitle w)" "windowId w > 0"
    by (auto simp: windowOf_def handleAbove0_def orZero_def split: option.splits)
  ultimately show ?thesis by blast
qed

lemma keyOf_twoFields: "twoFields s \<Longrightarrow> keyOf s = s"
  using pairOf_fields [of s] by (simp add: keyOf_def getCacheKey_def)

lemma lookupWindowId_refresh:
  "commands (snd (lookupWindowId env True st a t)) = commands st @ [GetWindowID_command a t]
   \<and> cache (snd (lookupWindowId env True st a t)) =
       (case freshHandle env (length (commands st)) (a, t) of
          None \<Rightarrow> cache st
        | Some wid \<Rightarrow> WindowCache_set (cache st) a t wid (Date_now env (clock_reads st)))"
  by (simp add: lookupWindowId_def exec_def cache_set_def freshHandle_def split: result.splits option.splits)

lemma windowStep_refresh:
  assumes "twoFields s"
  shows "commands (snd (windowStep env True (wins, st) s)) = commands st @ [commandOf s]
   \<and> cache (snd (windowStep env True (wins, st) s)) =
       (case freshHandle env (length (commands st)) (pairOf s) of
          None \<Rightarrow> cache st
        | Some wid \<Rightarrow>
            WindowCache_set (cache st) (fst (pairOf s)) (snd (pairOf s)) wid (Date_now env (clock_reads st)))"
  using assms lookupWindowId_refresh [of env st "fst (pairOf s)" "snd (pairOf s)"]
  by (simp add: windowStep_eq commandOf_def)

lemma refresh_commands:
  assumes "\<forall>s \<in> set strs. twoFields s"
  shows "commands (snd (foldl (windowStep env True) (wins, st) strs)) = commands st @ map commandOf strs"
  using assms
proof (induction strs rule: rev_induct)
  case Nil
  then show ?case by simp
next
  case (snoc s strs)
  obtain w1 st1 where a: "foldl (windowStep env True) (wins, st) strs = (w1, st1)"
    by (cases "foldl (windowStep env True) (wins, st) strs")
  from snoc a have "commands st1 = commands st @ map commandOf strs" by simp
  moreover from snoc.prems have "twoFields s" by simp
  ultimately show ?case by (simp add: a windowStep_refresh)
qed

lemma refresh_cache:
  assumes "\<forall>s \<in> set strs. twoFields s" and "j < length strs"
    and "freshHandle env (length (commands st) + j) (pairOf (strs ! j)) = Some wid"
    and "\<forall>j'. j < j' \<and> j' < length strs \<and> strs ! j' = strs ! j
           \<longrightarrow> freshHandle env (length (commands st) + j') (pairOf (strs ! j')) = None"
  shows "map_option windowId (Map_get (cache (snd (foldl (windowStep env True) (wins, st) strs))) (keyOf (strs ! j)))
           = Some wid"
  using assms
proof (induction strs rule: rev_induct)
  case Nil
  then show ?case by simp
next
  case (snoc s strs)
  let ?n = "length strs"
  obtain w1 st1 where a: "foldl (windowStep env True) (wins, st) strs = (w1, st1)"
    by (cases "foldl (windowStep env True) (wins, st) strs")
  from snoc.prems(1) have tf: "twoFields s" and all: "\<forall>s \<in> set strs. twoFields s" by simp_all
  have len: "length (commands st1) = length (commands st) + ?n"
    using refresh_commands [OF all, of env wins st] a by simp
  have fold: "foldl (windowStep env True) (wins, st) (strs @ [s]) = windowStep env True (w1, st1) s"
    by (simp add: a)
  have step: "cache (snd (windowStep env True (w1, st1) s)) =
       (case freshHandle env (length (commands st) + ?n) (pairOf s) of
          None \<Rightarrow> cache st1
        | Some wid' \<Rightarrow>
            WindowCache_set (cache st1) (fst (pairOf s)) (snd (pairOf s)) wid' (Date_now env (clock_reads st1)))"
    using windowStep_refresh [OF tf, of env w1 st1] by (simp add: len)
  have "map_option windowId (Map_get (cache (snd (windowStep env True (w1, st1) s))) (keyOf ((strs @ [s]) ! j)))
           = Some wid"
  proof (cases "j = ?n")
    case True
    with snoc.prems(3) have "freshHandle env (length (commands st) + ?n) (pairOf s) = Some wid" by simp
    with True show ?thesis
      by (simp add: step WindowCache_set_def Map_get_set keyOf_def)
  next
    case False
    with snoc.prems(2) have j: "j < ?n" by simp
    then have nth: "(strs @ [s]) ! j = strs ! j" by (simp add: nth_append)
    have fh: "freshHandle env (length (commands st) + j) (pairOf (strs ! j)) = Some wid"
      using snoc.prems(3) nth by simp
    have later: "\<forall>j'. j < j' \<and> j' < ?n \<and> strs ! j' = strs ! j
           \<longrightarrow> freshHandle env (length (commands st) + j') (pairOf (strs ! j')) = None"
    proof (intro allI impI)
      fix j' assume h: "j < j' \<and> j' < ?n \<and> strs ! j' = strs ! j"
      then have "(strs @ [s]) ! j' = strs ! j'" by (simp add: nth_append)
      with snoc.prems(4) h nth show "freshHandle env (length (commands st) + j') (pairOf (strs ! j')) = None"
        by (metis length_append_singleton less_Suc_eq)
    qed
    have ih: "map_option windowId (Map_get (cache st1) (keyOf (strs ! j))) = Some wid"
      using snoc.IH [OF all j fh later] a by simp
    show ?thesis
    proof (cases "freshHandle env (length (commands st) + ?n) (pairOf s)")
      case None
      with ih show ?thesis by (simp add: step nth)
    next
      case (Some wid')
      have "s \<noteq> strs ! j"
      proof
        assume e: "s = strs ! j"
        have "(strs @ [s]) ! ?n = s" by simp
        with snoc.prems(4) j e nth have "freshHandle env (length (commands st) + ?n) (pairOf s) = None"
          by (metis length_append_singleton lessI)
        with Some show False by simp
      qed
      moreover have "strs ! j \<in> set strs" using j by simp
      ultimately have "keyOf (strs ! j) \<noteq> keyOf s"
        using keyOf_twoFields tf all by metis
      then have "keyOf (strs ! j) \<noteq> getCacheKey (fst (pairOf s)) (snd (pairOf s))"
        by (simp add: keyOf_def)
      with ih Some show ?thesis
        by (simp add: step nth WindowCache_set_def Map_get_set)
    qed
  qed
  then show ?case by (simp add: a)
qed

lemma stateBefore_refresh_commands:
  assumes "\<forall>s \<in> set strs. twoFields s" and "j \<le> length strs"
  shows "length (commands (stateBefore env True st strs j)) = length (commands st) + j"
proof -
  have "\<forall>s \<in> set (take j strs). twoFields s"
    using assms(1) by (meson in_set_takeD)
  from refresh_commands [OF this, of env "[]" st] assms(2) show ?thesis
    by (simp add: stateBefore_def)
qed

lemma listed_by_fresh:
  assumes "\<And>j. j < length strs \<Longrightarrow>
             resolvedHandle env fr (stateBefore env fr st strs j) (pairOf (strs ! j))
               = freshHandle env (n + j) (pairOf (strs ! j))"
  shows "map (\<lambda>j. windowOf env fr (stateBefore env fr st strs j) (strs ! j))
             (filter (\<lambda>j. handleAbove0 env fr (stateBefore env fr st strs j) (strs ! j)) [0..<length strs])
         = freshWindows env n strs"
proof -
  have f: "filter (\<lambda>j. handleAbove0 env fr (stateBefore env fr st strs j) (strs ! j)) [0..<length strs]
         = filter (\<lambda>j. case freshHandle env (n + j) (pairOf (strs ! j)) of None \<Rightarrow> False | Some h \<Rightarrow> h > 0)
             [0..<length strs]"
    by (rule filter_cong) (simp_all add: handleAbove0_def assms)
  show ?thesis
    unfolding freshWindows_def f
    by (rule map_cong) (simp_all add: windowOf_def assms)
qed

lemma lookupWindowId_miss:
  assumes "Map_get (cache st) (getCacheKey a t) = None"
  shows "commands (snd (lookupWindowId env False st a t)) = commands st @ [GetWindowID_command a t]
   \<and> cache (snd (lookupWindowId env False st a t)) =
       (case freshHandle env (length (commands st)) (a, t) of
          None \<Rightarrow> cache st
        | Some wid \<Rightarrow> WindowCache_set (cache st) a t wid (Date_now env (clock_reads st)))"
  using assms
  by (simp add: lookupWindowId_def cache_get_def orZero_def exec_def cache_set_def freshHandle_def
      split: result.splits option.splits)

lemma cold_invariant:
  assumes tf: "\<forall>s \<in> set strs. twoFields s" and d: "distinct strs"
    and cold: "\<forall>s \<in> set strs. Map_get (cache st) (keyOf s) = None"
    and j: "j \<le> length strs"
  shows "commands (stateBefore env False st strs j) = commands st @ map commandOf (take j strs)
       \<and> (\<forall>k. j \<le> k \<and> k < length strs \<longrightarrow> Map_get (cache (stateBefore env False st strs j)) (keyOf (strs ! k)) = None)"
  using j
proof (induction j)
  case 0
  then show ?case using cold by (simp add: stateBefore_def)
next
  case (Suc j)
  from Suc.prems have jl: "j < length strs" by simp
  let ?st = "stateBefore env False st strs j"
  let ?s = "strs ! j"
  have jle: "j \<le> length strs" using jl by simp
  note ih = Suc.IH [OF jle]
  have c: "commands ?st = commands st @ map commandOf (take j strs)"
    using ih by (rule conjunct1)
  have n: "Map_get (cache ?st) (keyOf (strs ! k)) = None" if "j \<le> k" "k < length strs" for k
    using ih [THEN conjunct2] that by blast
  have tfs: "twoFields ?s" using tf jl by simp
  obtain w1 st1 where a: "foldl (windowStep env False) ([], st) (take j strs) = (w1, st1)"
    by (cases "foldl (windowStep env False) ([], st) (take j strs)")
  have e: "?st = st1"
    by (simp add: stateBefore_def a)
  have step: "stateBefore env False st strs (Suc j)
                = snd (lookupWindowId env False ?st (fst (pairOf ?s)) (snd (pairOf ?s)))"
  proof -
    have "stateBefore env False st strs (Suc j)
            = snd (foldl (windowStep env False) ([], st) (take j strs @ [?s]))"
      by (simp add: stateBefore_def take_Suc_conv_app_nth [OF jl])
    also have "\<dots> = snd (windowStep env False (w1, st1) ?s)"
      by (simp add: a)
    also have "\<dots> = snd (lookupWindowId env False st1 (fst (pairOf ?s)) (snd (pairOf ?s)))"
      using tfs by (simp add: windowStep_eq)
    finally show ?thesis unfolding e .
  qed
  have miss: "Map_get (cache ?st) (getCacheKey (fst (pairOf ?s)) (snd (pairOf ?s))) = None"
    using n [of j] jl by (simp add: keyOf_def)
  note l = lookupWindowId_miss [OF miss, of env]
  have "commands (stateBefore env False st strs (Suc j)) = commands st @ map commandOf (take (Suc j) strs)"
    unfolding step l [THEN conjunct1] c by (simp add: take_Suc_conv_app_nth [OF jl] commandOf_def)
  moreover have "Map_get (cache (stateBefore env False st strs (Suc j))) (keyOf (strs ! k)) = None"
    if "Suc j \<le> k" "k < length strs" for k
  proof -
    have "strs ! k \<noteq> ?s" using d that jl by (simp add: nth_eq_iff_index_eq)
    moreover have "twoFields (strs ! k)" using tf that by simp
    ultimately have "keyOf (strs ! k) \<noteq> keyOf ?s"
      using tfs by (simp add: keyOf_twoFields)
    then have ne: "keyOf (strs ! k) \<noteq> getCacheKey (fst (pairOf ?s)) (snd (pairOf ?s))"
      by (simp add: keyOf_def)
    have old: "Map_get (cache ?st) (keyOf (strs ! k)) = None"
      using n [of k] that by simp
    show ?thesis
      unfolding step l [THEN conjunct2]
      using ne old
      by (cases "freshHandle env (length (commands ?st)) (fst (pairOf ?s), snd (pairOf ?s))")
         (simp_all add: WindowCache_set_def Map_get_set)
  qed
  ultimately show ?case by blast
qed

lemma cold_resolved:
  assumes "\<forall>s \<in> set strs. twoFields s" and "distinct strs"
    and "\<forall>s \<in> set strs. Map_get (cache st) (keyOf s) = None"
    and "j < length strs"
  shows "resolvedHandle env False (stateBefore env False st strs j) (pairOf (strs ! j))
           = freshHandle env (length (commands st) + j) (pairOf (strs ! j))"
proof -
  from cold_invariant [OF assms(1-3), of j env] assms(4)
  have c: "commands (stateBefore env False st strs j) = commands st @ map commandOf (take j strs)"
    and n: "Map_get (cache (stateBefore env False st strs j)) (keyOf (strs ! j)) = None"
    by simp_all
  from c assms(4) have "length (commands (stateBefore env False st strs j)) = length (commands st) + j"
    by simp
  with n show ?thesis
    by (simp add: resolvedHandle_def cachedHandle_def keyOf_def)
qed

lemma refresh_resolved:
  assumes "\<forall>s \<in> set strs. twoFields s" and "j < length strs"
  shows "resolvedHandle env True (stateBefore env True st strs j) (pairOf (strs ! j))
           = freshHandle env (length (commands st) + j) (pairOf (strs ! j))"
  using stateBefore_refresh_commands [OF assms(1), of j env st] assms(2)
  by (simp add: resolvedHandle_def)

lemma afterScript_cache: "cache (afterScript env st) = cache st"
  by (simp add: afterScript_def runAppleScript_def exec_def fs_step_def Let_def
      split: result.splits prod.splits)

section \<open>Grouping and sorting\<close>

lemma map_of_groupStep:
  "map_of (groupStep m w) =
     (map_of m)(appName w \<mapsto>
        (case map_of m (appName w) of
           None \<Rightarrow> \<lparr>app_appName = appName w, app_windows = [entryOf w]\<rparr>
         | Some g \<Rightarrow> g\<lparr>app_windows := app_windows g @ [entryOf w]\<rparr>))"
  by (cases "map_of m (appName w)")
     (simp_all add: groupStep_def Map_has_def Map_get_def Map_set_def update_conv' entryOf_def)

lemma keys_groupStep: "fst ` set (groupStep m w) = insert (appName w) (fst ` set m)"
  by (cases "map_of m (appName w)")
     (auto simp: groupStep_def Map_has_def Map_get_def Map_set_def update_conv' dom_update)

lemma distinct_groupStep: "distinct (map fst m) \<Longrightarrow> distinct (map fst (groupStep m w))"
  by (cases "map_of m (appName w)")
     (simp_all add: groupStep_def Map_has_def Map_get_def Map_set_def update_conv' distinct_update)

lemma grouping_invariant:
  "distinct (map fst (foldl groupStep [] ws))
   \<and> fst ` set (foldl groupStep [] ws) = appName ` set ws
   \<and> (\<forall>k g. map_of (foldl groupStep [] ws) k = Some g \<longrightarrow>
         app_appName g = k \<and> app_windows g = map entryOf (filter (\<lambda>w. appName w = k) ws))"
proof (induction ws rule: rev_induct)
  case Nil
  then show ?case by simp
next
  case (snoc w ws)
  let ?m = "foldl groupStep [] ws"
  from snoc have d: "distinct (map fst ?m)" and k: "fst ` set ?m = appName ` set ws"
    and v: "\<And>k g. map_of ?m k = Some g \<Longrightarrow>
         app_appName g = k \<and> app_windows g = map entryOf (filter (\<lambda>w. appName w = k) ws)"
    by blast+
  have none: "filter (\<lambda>u. appName u = appName w) ws = []" if "map_of ?m (appName w) = None"
  proof -
    from that have "appName w \<notin> fst ` set ?m" by (simp add: map_of_eq_None_iff)
    with k have "appName w \<notin> appName ` set ws" by simp
    then have "\<forall>x \<in> set ws. appName x \<noteq> appName w" by (metis imageI)
    then show ?thesis by (simp add: filter_empty_conv)
  qed
  have "app_appName g = k' \<and> app_windows g = map entryOf (filter (\<lambda>u. appName u = k') (ws @ [w]))"
    if "map_of (groupStep ?m w) k' = Some g" for k' g
  proof (cases "k' = appName w")
    case True
    show ?thesis
    proof (cases "map_of ?m (appName w)")
      case None
      with that True none show ?thesis by (auto simp: map_of_groupStep)
    next
      case (Some g0)
      with that True v [OF Some] show ?thesis by (auto simp: map_of_groupStep)
    qed
  next
    case False
    with that have "map_of ?m k' = Some g" by (simp add: map_of_groupStep)
    from v [OF this] False show ?thesis by auto
  qed
  then show ?case
    using d k by (simp add: distinct_groupStep keys_groupStep)
qed

lemma Array_sort_Nil: "Array_sort cmp [] = []"
  by (simp add: Array_sort_def)

lemma Array_sort_Cons: "Array_sort cmp (x # xs) = insertBy cmp x (Array_sort cmp xs)"
  by (simp add: Array_sort_def)

lemma set_insertBy: "set (insertBy cmp x ys) = insert x (set ys)"
  by (induction ys) auto

lemma set_Array_sort: "set (Array_sort cmp xs) = set xs"
  by (induction xs) (simp_all add: Array_sort_Nil Array_sort_Cons set_insertBy)

lemma distinct_map_insertBy:
  "distinct (map f (insertBy cmp x ys)) \<longleftrightarrow> f x \<notin> f ` set ys \<and> distinct (map f ys)"
  by (induction ys) (auto simp: set_insertBy)

lemma distinct_map_Array_sort: "distinct (map f (Array_sort cmp xs)) \<longleftrightarrow> distinct (map f xs)"
  by (induction xs) (simp_all add: Array_sort_Nil Array_sort_Cons distinct_map_insertBy set_Array_sort)

lemma sorted_insertBy:
  assumes total: "\<And>a b. cmp a b \<le> 0 \<or> cmp b a \<le> (0::int)"
    and trans: "\<And>a b c. cmp a b \<le> 0 \<Longrightarrow> cmp b c \<le> 0 \<Longrightarrow> cmp a c \<le> 0"
  shows "sorted_wrt (\<lambda>a b. cmp a b \<le> 0) ys \<Longrightarrow> sorted_wrt (\<lambda>a b. cmp a b \<le> 0) (insertBy cmp x ys)"
proof (induction ys)
  case Nil
  then show ?case by simp
next
  case (Cons y ys)
  from Cons.prems have after: "\<forall>z \<in> set ys. cmp y z \<le> 0" and tl: "sorted_wrt (\<lambda>a b. cmp a b \<le> 0) ys"
    by simp_all
  show ?case
  proof (cases "cmp x y \<le> 0")
    case True
    have "\<forall>z \<in> set ys. cmp x z \<le> 0"
      using after trans [OF True] by blast
    with True Cons.prems show ?thesis by simp
  next
    case False
    with total [of x y] have "cmp y x \<le> 0" by simp
    with False after Cons.IH [OF tl] show ?thesis by (simp add: set_insertBy)
  qed
qed

lemma sorted_Array_sort:
  assumes "\<And>a b. cmp a b \<le> 0 \<or> cmp b a \<le> (0::int)"
    and "\<And>a b c. cmp a b \<le> 0 \<Longrightarrow> cmp b c \<le> 0 \<Longrightarrow> cmp a c \<le> 0"
  shows "sorted_wrt (\<lambda>a b. cmp a b \<le> 0) (Array_sort cmp xs)"
proof (induction xs)
  case Nil
  show ?case by (simp add: Array_sort_Nil)
next
  case (Cons x xs)
  have "sorted_wrt (\<lambda>a b. cmp a b \<le> 0) (insertBy cmp x (Array_sort cmp xs))"
  proof (rule sorted_insertBy)
    show "cmp a b \<le> 0 \<or> cmp b a \<le> 0" for a b by (rule assms(1))
    show "cmp a b \<le> 0 \<Longrightarrow> cmp b c \<le> 0 \<Longrightarrow> cmp a c \<le> 0" for a b c by (rule assms(2))
    show "sorted_wrt (\<lambda>a b. cmp a b \<le> 0) (Array_sort cmp xs)" by (rule Cons)
  qed
  then show ?case by (simp add: Array_sort_Cons)
qed

lemma compareUnits_total: "\<forall>a b. compareUnits a b \<le> 0 \<or> compareUnits b a \<le> 0"
  by (auto simp: compareUnits_def)

lemma compareUnits_trans:
  "\<forall>a b c. compareUnits a b \<le> 0 \<and> compareUnits b c \<le> 0 \<longrightarrow> compareUnits a c \<le> 0"
  by (auto simp: compareUnits_def split: if_splits)

lemma getApplicationWindowsList_fst:
  "fst (getApplicationWindowsList env st fr) =
     Array_sort (\<lambda>a b. localeCompare env (app_appName a) (app_appName b))
       (Map_values (foldl groupStep [] (fst (getWindowList env st fr))))"
  by (simp add: getApplicationWindowsList_def split: prod.splits)

section \<open>Parsing the enumeration\<close>

text \<open>
  Claim C10. \<^verbatim>\<open>getWindowList\<close> cuts the trimmed output at \<^verbatim>\<open>", "\<close> and each element at
  \<^verbatim>\<open>"|||"\<close>; its result is that of the loop run over the elements with exactly two fields
  alone, so every other element is passed over without a window, a lookup or an error (the
  function returns a list in every case; nothing in the loop throws). Every listed window
  comes from an element \<^verbatim>\<open>appName|||windowTitle\<close>, and neither of its two texts contains
  \<^verbatim>\<open>", "\<close> or \<^verbatim>\<open>"|||"\<close>: a window whose title contains one of them is never listed under
  that title, it is cut short or left out.
\<close>

theorem getWindowList_skips_malformed:
  "getWindowList env st fr =
     foldl (windowStep env fr) ([], afterScript env st) (filter twoFields (windowStrings env st))
   \<and> (\<forall>w \<in> set (fst (getWindowList env st fr)).
         appName w @ ''|||'' @ windowTitle w \<in> set (windowStrings env st)
       \<and> \<not> includes_str (appName w) ''|||'' \<and> \<not> includes_str (windowTitle w) ''|||''
       \<and> \<not> includes_str (appName w) '', '' \<and> \<not> includes_str (windowTitle w) '', '')
   \<and> (includes_str t ''|||'' \<or> includes_str t '', ''
        \<longrightarrow> t \<notin> windowTitle ` set (fst (getWindowList env st fr)))"
proof -
  have 1: "getWindowList env st fr =
     foldl (windowStep env fr) ([], afterScript env st) (filter twoFields (windowStrings env st))"
    using foldl_windowStep_filter [of env fr "([], afterScript env st)" "windowStrings env st"]
    by (simp add: getWindowList_loop)
  have 2: "appName w @ ''|||'' @ windowTitle w \<in> set (windowStrings env st)
       \<and> \<not> includes_str (appName w) ''|||'' \<and> \<not> includes_str (windowTitle w) ''|||''
       \<and> \<not> includes_str (appName w) '', '' \<and> \<not> includes_str (windowTitle w) '', ''"
    if "w \<in> set (fst (getWindowList env st fr))" for w
  proof -
    from that obtain s where s: "s \<in> set (windowStrings env st)" "twoFields s"
        "pairOf s = (appName w, windowTitle w)"
      using listed_from_element [of w env fr "afterScript env st" "windowStrings env st"]
      by (auto simp: getWindowList_loop)
    from pairOf_fields [OF s(2)] s(3)
    have e: "s = appName w @ ''|||'' @ windowTitle w"
      and f: "\<not> includes_str (appName w) ''|||''" "\<not> includes_str (windowTitle w) ''|||''"
      by simp_all
    have g: "\<not> includes_str s '', ''" using s(1) by (rule windowStrings_free)
    have "\<not> includes_str (appName w) '', ''"
      using g includes_str_within [of "appName w" "'', ''" s "[]" "''|||'' @ windowTitle w"] e by auto
    moreover have "\<not> includes_str (windowTitle w) '', ''"
      using g includes_str_within [of "windowTitle w" "'', ''" s "appName w @ ''|||''" "[]"] e by auto
    ultimately show ?thesis using s(1) e f by simp
  qed
  from 1 2 show ?thesis by blast
qed

theorem getWindowList_skips_malformed_witness:
  "fst (getWindowList messy_env world0 False) =
     [\<lparr>windowId = 10, appName = ''Figma'', windowTitle = ''Design A''\<rparr>,
      \<lparr>windowId = 10, appName = ''Notes'', windowTitle = ''Hello''\<rparr>]
   \<and> ''Hello, World'' \<notin> windowTitle ` set (fst (getWindowList messy_env world0 False))
   \<and> ''B|||C'' \<notin> windowTitle ` set (fst (getWindowList messy_env world0 False))"
proof -
  have a: "includes_str ''Hello, World'' '', ''" by simp
  have b: "includes_str ''B|||C'' ''|||''" by simp
  have c: "fst (getWindowList messy_env world0 False) =
     [\<lparr>windowId = 10, appName = ''Figma'', windowTitle = ''Design A''\<rparr>,
      \<lparr>windowId = 10, appName = ''Notes'', windowTitle = ''Hello''\<rparr>]"
    by code_simp
  show ?thesis
    using getWindowList_skips_malformed [of messy_env world0 False "''Hello, World''"]
      getWindowList_skips_malformed [of messy_env world0 False "''B|||C''"] a b c
    by blast
qed

section \<open>The listing\<close>

text \<open>
  Claim C5, as amended. Provided \<^verbatim>\<open>localeCompare\<close> is a total preorder, for every enumeration
  output and every state: \<^verbatim>\<open>getApplicationWindowsList\<close> has the side effects of
  \<^verbatim>\<open>getWindowList\<close> and no others. The windows listed are exactly the enumerated pairs whose
  handle is a number above 0, in enumeration order and each with that handle, where the
  handle of a pair is the window ID of its live cache entry when the refresh is not forced
  and that ID is not 0, and otherwise the number that \<^verbatim>\<open>GetWindowID\<close> yields for the pair; a
  pair whose \<^verbatim>\<open>GetWindowID\<close> fails, prints no number or gives a number not above 0 is left
  out, and the function still returns its list. In particular, under a forced refresh, and
  also without one when the enumerated pairs are distinct and none has a cache entry, the
  windows listed are those for which \<^verbatim>\<open>GetWindowID\<close>, run once per pair in order after the
  script, yields a number above 0. There is one group for each application that has a
  listed window and no two groups share a name; the groups are sorted by \<^verbatim>\<open>localeCompare\<close> on
  the application name; and the windows of a group are the listed windows of that
  application, in enumeration order.
\<close>

theorem listAll_groups:
  assumes total: "\<forall>a b. localeCompare env a b \<le> 0 \<or> localeCompare env b a \<le> 0"
    and trans: "\<forall>a b c. localeCompare env a b \<le> 0 \<and> localeCompare env b c \<le> 0
                  \<longrightarrow> localeCompare env a c \<le> 0"
  shows "snd (getApplicationWindowsList env st fr) = snd (getWindowList env st fr)
   \<and> fst (getWindowList env st fr) =
       map (\<lambda>j. windowOf env fr (stateBefore env fr (afterScript env st) (enumerated env st) j)
                   (enumerated env st ! j))
         (filter (\<lambda>j. handleAbove0 env fr (stateBefore env fr (afterScript env st) (enumerated env st) j)
                        (enumerated env st ! j))
            [0..<length (enumerated env st)])
   \<and> fst (getWindowList env st True) =
       freshWindows env (length (commands (afterScript env st))) (enumerated env st)
   \<and> (distinct (enumerated env st) \<and> (\<forall>s \<in> set (enumerated env st). Map_get (cache st) (keyOf s) = None)
        \<longrightarrow> fst (getWindowList env st False) =
              freshWindows env (length (commands (afterScript env st))) (enumerated env st))
   \<and> distinct (map app_appName (fst (getApplicationWindowsList env st fr)))
   \<and> app_appName ` set (fst (getApplicationWindowsList env st fr)) = appName ` set (fst (getWindowList env st fr))
   \<and> sorted_wrt (\<lambda>g h. localeCompare env (app_appName g) (app_appName h) \<le> 0)
        (fst (getApplicationWindowsList env st fr))
   \<and> (\<forall>g \<in> set (fst (getApplicationWindowsList env st fr)).
         app_windows g =
           map entryOf (filter (\<lambda>w. appName w = app_appName g) (fst (getWindowList env st fr))))"
proof -
  let ?ws = "fst (getWindowList env st fr)"
  let ?m = "foldl groupStep [] ?ws"
  let ?cmp = "\<lambda>a b. localeCompare env (app_appName a) (app_appName b)"
  have g: "getApplicationWindowsList env st fr = (Array_sort ?cmp (Map_values ?m), snd (getWindowList env st fr))"
    by (simp add: getApplicationWindowsList_def split: prod.splits)
  from grouping_invariant [of ?ws]
  have d: "distinct (map fst ?m)" and k: "fst ` set ?m = appName ` set ?ws"
    and v: "\<And>k g. map_of ?m k = Some g \<Longrightarrow>
         app_appName g = k \<and> app_windows g = map entryOf (filter (\<lambda>w. appName w = k) ?ws)"
    by blast+
  have pairs: "app_appName g = k \<and> app_windows g = map entryOf (filter (\<lambda>w. appName w = k) ?ws)"
    if "(k, g) \<in> set ?m" for k g
    using that d v by simp
  have names: "map app_appName (Map_values ?m) = map fst ?m"
    using pairs by (auto simp: Map_values_def)
  have c2: "fst (getWindowList env st fr) =
       map (\<lambda>j. windowOf env fr (stateBefore env fr (afterScript env st) (enumerated env st) j)
                   (enumerated env st ! j))
         (filter (\<lambda>j. handleAbove0 env fr (stateBefore env fr (afterScript env st) (enumerated env st) j)
                        (enumerated env st ! j))
            [0..<length (enumerated env st)])"
    using listed_characterisation [of "enumerated env st" env fr "afterScript env st"]
    by (simp add: getWindowList_enumerated enumerated_def)
  have tf: "\<forall>s \<in> set (enumerated env st). twoFields s"
    by (simp add: enumerated_def)
  have c2a: "fst (getWindowList env st True) =
       freshWindows env (length (commands (afterScript env st))) (enumerated env st)"
    using listed_characterisation [OF tf, of env True "afterScript env st"]
      listed_by_fresh [of "enumerated env st" env True "afterScript env st"
        "length (commands (afterScript env st))"]
      refresh_resolved [OF tf, of _ env "afterScript env st"]
    by (simp add: getWindowList_enumerated)
  have c2b: "fst (getWindowList env st False) =
       freshWindows env (length (commands (afterScript env st))) (enumerated env st)"
    if "distinct (enumerated env st) \<and> (\<forall>s \<in> set (enumerated env st). Map_get (cache st) (keyOf s) = None)"
  proof -
    from that have d: "distinct (enumerated env st)"
      and cold: "\<forall>s \<in> set (enumerated env st). Map_get (cache (afterScript env st)) (keyOf s) = None"
      by (simp_all add: afterScript_cache)
    show ?thesis
      using listed_characterisation [OF tf, of env False "afterScript env st"]
        listed_by_fresh [of "enumerated env st" env False "afterScript env st"
          "length (commands (afterScript env st))"]
        cold_resolved [OF tf d cold, of _ env]
      by (simp add: getWindowList_enumerated)
  qed
  have c3: "distinct (map app_appName (fst (getApplicationWindowsList env st fr)))"
    using d by (simp add: g distinct_map_Array_sort names)
  have c4: "app_appName ` set (fst (getApplicationWindowsList env st fr)) = appName ` set ?ws"
  proof -
    have "app_appName ` set (Map_values ?m) = set (map app_appName (Map_values ?m))" by simp
    also have "\<dots> = fst ` set ?m" unfolding names by simp
    finally show ?thesis using k by (simp add: g set_Array_sort)
  qed
  have c5: "sorted_wrt (\<lambda>g h. localeCompare env (app_appName g) (app_appName h) \<le> 0)
        (fst (getApplicationWindowsList env st fr))"
    unfolding g fst_conv
  proof (rule sorted_Array_sort)
    show "localeCompare env (app_appName a) (app_appName b) \<le> 0
          \<or> localeCompare env (app_appName b) (app_appName a) \<le> 0" for a b :: ApplicationWindows
      using total by blast
    show "localeCompare env (app_appName a) (app_appName b) \<le> 0 \<Longrightarrow>
          localeCompare env (app_appName b) (app_appName c) \<le> 0 \<Longrightarrow>
          localeCompare env (app_appName a) (app_appName c) \<le> 0" for a b c :: ApplicationWindows
      using trans by blast
  qed
  have c6: "app_windows g = map entryOf (filter (\<lambda>w. appName w = app_appName g) ?ws)"
    if "g \<in> set (fst (getApplicationWindowsList env st fr))" for g
  proof -
    from that obtain k where "(k, g) \<in> set ?m"
      by (auto simp: g set_Array_sort Map_values_def)
    from pairs [OF this] show ?thesis by simp
  qed
  from c2 c2a c2b c3 c4 c5 c6 show ?thesis by (simp add: g)
qed

theorem listAll_groups_witness:
  "fst (getApplicationWindowsList desk_env world0 False) =
     [\<lparr>app_appName = ''Figma'',
        app_windows = [\<lparr>win_windowId = 10, win_windowTitle = ''Design A''\<rparr>,
                       \<lparr>win_windowId = 11, win_windowTitle = ''Design B''\<rparr>]\<rparr>,
      \<lparr>app_appName = ''Mail'', app_windows = [\<lparr>win_windowId = 12, win_windowTitle = ''Inbox''\<rparr>]\<rparr>]
   \<and> fst (getWindowList desk_env world0 False) =
     [\<lparr>windowId = 12, appName = ''Mail'', windowTitle = ''Inbox''\<rparr>,
      \<lparr>windowId = 10, appName = ''Figma'', windowTitle = ''Design A''\<rparr>,
      \<lparr>windowId = 11, appName = ''Figma'', windowTitle = ''Design B''\<rparr>]
   \<and> sorted_wrt (\<lambda>g h. localeCompare desk_env (app_appName g) (app_appName h) \<le> 0)
        (fst (getApplicationWindowsList desk_env world0 False))
   \<and> distinct (map app_appName (fst (getApplicationWindowsList desk_env world0 False)))
   \<and> fst (getWindowList desk_env world0 False) =
       freshWindows desk_env 1 [''Mail|||Inbox'', ''Figma|||Design A'', ''Ghost|||Gone'', ''Figma|||Design B'']
   \<and> freshHandle desk_env 3 (''Ghost'', ''Gone'') = None"
proof -
  have lc: "localeCompare desk_env = compareUnits"
    by (simp add: desk_env_def quiet_env_def)
  have t: "\<forall>a b. localeCompare desk_env a b \<le> 0 \<or> localeCompare desk_env b a \<le> 0"
    unfolding lc by (rule compareUnits_total)
  have r: "\<forall>a b c. localeCompare desk_env a b \<le> 0 \<and> localeCompare desk_env b c \<le> 0
                  \<longrightarrow> localeCompare desk_env a c \<le> 0"
    unfolding lc by (rule compareUnits_trans)
  have w: "fst (getWindowList desk_env world0 False) =
     [\<lparr>windowId = 12, appName = ''Mail'', windowTitle = ''Inbox''\<rparr>,
      \<lparr>windowId = 10, appName = ''Figma'', windowTitle = ''Design A''\<rparr>,
      \<lparr>windowId = 11, appName = ''Figma'', windowTitle = ''Design B''\<rparr>]"
    by code_simp
  have "Array_sort (\<lambda>a b. compareUnits (app_appName a) (app_appName b))
       (Map_values (foldl groupStep []
     [\<lparr>windowId = 12, appName = ''Mail'', windowTitle = ''Inbox''\<rparr>,
      \<lparr>windowId = 10, appName = ''Figma'', windowTitle = ''Design A''\<rparr>,
      \<lparr>windowId = 11, appName = ''Figma'', windowTitle = ''Design B''\<rparr>])) =
     [\<lparr>app_appName = ''Figma'',
        app_windows = [\<lparr>win_windowId = 10, win_windowTitle = ''Design A''\<rparr>,
                       \<lparr>win_windowId = 11, win_windowTitle = ''Design B''\<rparr>]\<rparr>,
      \<lparr>app_appName = ''Mail'', app_windows = [\<lparr>win_windowId = 12, win_windowTitle = ''Inbox''\<rparr>]\<rparr>]"
    by code_simp
  then have g: "fst (getApplicationWindowsList desk_env world0 False) =
     [\<lparr>app_appName = ''Figma'',
        app_windows = [\<lparr>win_windowId = 10, win_windowTitle = ''Design A''\<rparr>,
                       \<lparr>win_windowId = 11, win_windowTitle = ''Design B''\<rparr>]\<rparr>,
      \<lparr>app_appName = ''Mail'', app_windows = [\<lparr>win_windowId = 12, win_windowTitle = ''Inbox''\<rparr>]\<rparr>]"
    unfolding getApplicationWindowsList_fst w lc by this
  note all = listAll_groups [OF t r, of world0 False]
  have "sorted_wrt (\<lambda>g h. localeCompare desk_env (app_appName g) (app_appName h) \<le> 0)
        (fst (getApplicationWindowsList desk_env world0 False))"
    and "distinct (map app_appName (fst (getApplicationWindowsList desk_env world0 False)))"
    using all [THEN conjunct2, THEN conjunct2, THEN conjunct2, THEN conjunct2, THEN conjunct2,
        THEN conjunct2, THEN conjunct1]
      all [THEN conjunct2, THEN conjunct2, THEN conjunct2, THEN conjunct2, THEN conjunct1]
    by this+
  moreover have e: "enumerated desk_env world0 =
      [''Mail|||Inbox'', ''Figma|||Design A'', ''Ghost|||Gone'', ''Figma|||Design B'']"
    by code_simp
  have n: "length (commands (afterScript desk_env world0)) = 1"
    by code_simp
  have cold: "distinct (enumerated desk_env world0)
      \<and> (\<forall>s \<in> set (enumerated desk_env world0). Map_get (cache world0) (keyOf s) = None)"
    unfolding e by (simp add: world0_def Map_get_def)
  have f: "fst (getWindowList desk_env world0 False) =
       freshWindows desk_env 1 [''Mail|||Inbox'', ''Figma|||Design A'', ''Ghost|||Gone'', ''Figma|||Design B'']"
    using all [THEN conjunct2, THEN conjunct2, THEN conjunct2, THEN conjunct1, THEN mp, OF cold]
    unfolding e n by this
  have h: "freshHandle desk_env 3 (''Ghost'', ''Gone'') = None"
    by code_simp
  ultimately show ?thesis using g w f h by (intro conjI)
qed

text \<open>
  The claim as first stated lists every pair whose handle lookup succeeded. Here
  \<^verbatim>\<open>GetWindowID\<close> succeeds for \<^verbatim>\<open>("Mail", "Inbox")\<close> and prints \<^verbatim>\<open>-5\<close>: the number is parsed and
  stored in the cache, but line 559 lists a window only when its ID is above 0, so the
  pair is missing from the listing.
\<close>

theorem listAll_negative_handle_counterexample:
  "enumerated minus_env world0 = [''Figma|||Design A'', ''Mail|||Inbox'']
   \<and> execAsync minus_env 2 (GetWindowID_command ''Mail'' ''Inbox'') = Returns ''-5''
   \<and> parseInt (trim ''-5'') = Some (- 5)
   \<and> commands (snd (getApplicationWindowsList minus_env world0 False)) =
       [''osascript /tmp/getWindows.scpt'', GetWindowID_command ''Figma'' ''Design A'',
        GetWindowID_command ''Mail'' ''Inbox'']
   \<and> map_option windowId
        (Map_get (cache (snd (getApplicationWindowsList minus_env world0 False))) (getCacheKey ''Mail'' ''Inbox''))
       = Some (- 5)
   \<and> fst (getApplicationWindowsList minus_env world0 False) =
       [\<lparr>app_appName = ''Figma'',
          app_windows = [\<lparr>win_windowId = 10, win_windowTitle = ''Design A''\<rparr>]\<rparr>]"
  by code_simp

section \<open>Forced refresh\<close>

text \<open>
  Claim C6. With \<^verbatim>\<open>forceRefresh\<close> set, whatever the cache holds, \<^verbatim>\<open>getWindowList\<close> runs
  after the script exactly one \<^verbatim>\<open>GetWindowID\<close> command for each enumerated pair, in
  enumeration order; and when the command of a pair yields a number, the cache entry of the
  pair holds that number afterwards, unless a later occurrence of the same pair yielded
  another number.
\<close>

theorem forceRefresh_looks_up_every_pair:
  "commands (snd (getWindowList env st True))
     = commands (afterScript env st) @ map commandOf (enumerated env st)
   \<and> (\<forall>j wid.
         j < length (enumerated env st)
         \<and> freshHandle env (length (commands (afterScript env st)) + j) (pairOf (enumerated env st ! j)) = Some wid
         \<and> (\<forall>j'. j < j' \<and> j' < length (enumerated env st) \<and> enumerated env st ! j' = enumerated env st ! j
                \<longrightarrow> freshHandle env (length (commands (afterScript env st)) + j') (pairOf (enumerated env st ! j')) = None)
         \<longrightarrow> map_option windowId
               (Map_get (cache (snd (getWindowList env st True))) (keyOf (enumerated env st ! j))) = Some wid)"
proof -
  have tf: "\<forall>s \<in> set (enumerated env st). twoFields s"
    by (simp add: enumerated_def)
  have loop: "getWindowList env st True =
      foldl (windowStep env True) ([], afterScript env st) (enumerated env st)"
    by (rule getWindowList_enumerated)
  show ?thesis
    unfolding loop
    using refresh_commands [OF tf, of env "[]" "afterScript env st"]
      refresh_cache [OF tf, of _ env "afterScript env st" _ "[]"]
    by blast
qed

theorem forceRefresh_looks_up_every_pair_witness:
  "cache figma_world =
     [(''Figma|||Design A'', \<lparr>windowId = 10, appName = ''Figma'', windowTitle = ''Design A'', timestamp = 0\<rparr>)]
   \<and> commands (snd (getWindowList refresh_env figma_world True))
       = [''osascript /tmp/getWindows.scpt'', GetWindowID_command ''Figma'' ''Design A'']
   \<and> map_option windowId
        (Map_get (cache (snd (getWindowList refresh_env figma_world True))) ''Figma|||Design A'') = Some 77"
proof -
  have e: "enumerated refresh_env figma_world = [''Figma|||Design A'']"
    by code_simp
  have c: "commands (afterScript refresh_env figma_world) = [''osascript /tmp/getWindows.scpt'']"
    by code_simp
  have f: "freshHandle refresh_env 1 (pairOf ''Figma|||Design A'') = Some 77"
    by code_simp
  have k: "keyOf ''Figma|||Design A'' = ''Figma|||Design A''" "commandOf ''Figma|||Design A'' = GetWindowID_command ''Figma'' ''Design A''"
    by code_simp+
  have w: "cache figma_world =
     [(''Figma|||Design A'', \<lparr>windowId = 10, appName = ''Figma'', windowTitle = ''Design A'', timestamp = 0\<rparr>)]"
    by code_simp
  from forceRefresh_looks_up_every_pair [of refresh_env figma_world]
  have "commands (snd (getWindowList refresh_env figma_world True))
       = [''osascript /tmp/getWindows.scpt'', GetWindowID_command ''Figma'' ''Design A'']"
    and "map_option windowId
        (Map_get (cache (snd (getWindowList refresh_env figma_world True))) ''Figma|||Design A'') = Some 77"
    using e c f k by (simp, auto)
  with w show ?thesis by simp
qed

end
